theory Spec2Isabelle
  imports Main "HOL-Library.Word" "HOL-Library.AList"
begin

unbundle bit_operations_syntax

section \<open>Bytes, strings and results\<close>

text \<open>
  A Go \<^verbatim>\<open>[]byte\<close> and a Go \<^verbatim>\<open>string\<close> are both sequences of bytes, and the
  conversions between them copy the bytes, so both are byte lists here. \<open>ascii\<close> writes a
  literal: \<open>ascii ''0810''\<close> is the four bytes of the Go literal \<^verbatim>\<open>"0810"\<close>.
\<close>

type_synonym byte = "8 word"
type_synonym bytes = "byte list"

definition ascii :: "string \<Rightarrow> bytes" where
  "ascii s = map of_char s"

text \<open>
  The error values of \<^verbatim>\<open>iso.go\<close>, one constructor for each \<^verbatim>\<open>errors.New\<close> and
  \<^verbatim>\<open>fmt.Errorf\<close> of the file, with the numbers the message prints. \<open>Wrapped n e\<close> is
  \<^verbatim>\<open>fmt.Errorf("DEn: %w", e)\<close>.
\<close>

datatype error =
    InvalidMTI bytes
  | UnsupportedField int
  | MustBeDigits int nat nat
  | TooLongLLVAR nat
  | TooLongLLLVAR nat
  | Wrapped int error
  | NotImplemented int
  | BufferTooShort
  | IncompleteMessage int int
  | TooShortForHeader
  | TooShortForSecondary
  | TruncatedDE int
  | TruncatedLLVARLength
  | InvalidLLVARLength
  | TruncatedLLVARValue
  | TruncatedLLLVARLength
  | InvalidLLLVARLength
  | TruncatedLLLVARValue
  | ExtraBytes int

text \<open>
  A call either returns a value, returns an error value, or does not return at all because
  the Go runtime panics (a slice expression out of range).
\<close>

datatype abort = Error error | Panic

type_synonym 'a result = "abort + 'a"

definition and_then :: "'a result \<Rightarrow> ('a \<Rightarrow> 'b result) \<Rightarrow> 'b result" where
  "and_then r k = (case r of Inl a \<Rightarrow> Inl a | Inr v \<Rightarrow> k v)"

text \<open>
  The slice expression \<^verbatim>\<open>b[lo:hi]\<close>. The runtime panics unless \<open>0 \<le> lo \<le> hi\<close> and
  \<open>hi\<close> is within the capacity of \<open>b\<close>. Every slice expression of \<^verbatim>\<open>iso.go\<close> with
  \<open>lo \<le> hi\<close> is preceded by a check of \<open>hi\<close> against \<^verbatim>\<open>len(b)\<close>, so the model bounds
  \<open>hi\<close> by the length.
\<close>

definition slice_expr :: "bytes \<Rightarrow> int \<Rightarrow> int \<Rightarrow> bytes result" where
  "slice_expr b lo hi =
     (if 0 \<le> lo \<and> lo \<le> hi \<and> hi \<le> int (length b)
      then Inr (take (nat (hi - lo)) (drop (nat lo) b))
      else Inl Panic)"

section \<open>The standard library functions the codec calls\<close>

text \<open>
  \<^verbatim>\<open>binary.BigEndian\<close>: \<^verbatim>\<open>PutUint16\<close>, \<^verbatim>\<open>Uint16\<close>, \<^verbatim>\<open>PutUint64\<close> and \<^verbatim>\<open>Uint64\<close>, written
  byte by byte as the library does. The codec calls the readers on the result of a slice
  expression of exactly 2 and 8 bytes, so their index expressions are in range.
\<close>

definition PutUint16 :: "16 word \<Rightarrow> bytes" where
  "PutUint16 v = [ucast (drop_bit 8 v), ucast v]"

definition Uint16 :: "bytes \<Rightarrow> 16 word" where
  "Uint16 b = ucast (b ! 1) OR push_bit 8 (ucast (b ! 0))"

definition PutUint64 :: "64 word \<Rightarrow> bytes" where
  "PutUint64 v =
     [ucast (drop_bit 56 v), ucast (drop_bit 48 v), ucast (drop_bit 40 v),
      ucast (drop_bit 32 v), ucast (drop_bit 24 v), ucast (drop_bit 16 v),
      ucast (drop_bit 8 v), ucast v]"

definition Uint64 :: "bytes \<Rightarrow> 64 word" where
  "Uint64 b =
     ucast (b ! 7) OR push_bit 8 (ucast (b ! 6)) OR push_bit 16 (ucast (b ! 5)) OR
     push_bit 24 (ucast (b ! 4)) OR push_bit 32 (ucast (b ! 3)) OR
     push_bit 40 (ucast (b ! 2)) OR push_bit 48 (ucast (b ! 1)) OR
     push_bit 56 (ucast (b ! 0))"

text \<open>
  \<^verbatim>\<open>fmt.Sprintf("%02d", n)\<close> and \<^verbatim>\<open>fmt.Sprintf("%03d", n)\<close> for a length \<open>n\<close>: the decimal
  digits of \<open>n\<close>, padded with zeros on the left to the width.
\<close>

fun decimal :: "nat \<Rightarrow> bytes" where
  "decimal n =
     (if n < 10 then [of_nat (48 + n)]
      else decimal (n div 10) @ [of_nat (48 + n mod 10)])"

declare decimal.simps [simp del]

definition Sprintf_0d :: "nat \<Rightarrow> nat \<Rightarrow> bytes" where
  "Sprintf_0d w n = replicate (w - length (decimal n)) 0x30 @ decimal n"

text \<open>
  \<^verbatim>\<open>strconv.Atoi\<close> on a short string: an optional sign \<^verbatim>\<open>+\<close> or \<^verbatim>\<open>-\<close>, then one or
  more decimal digits; anything else is a syntax error (\<open>None\<close>). The loop subtracts
  \<^verbatim>\<open>'0'\<close> from each byte, with wrap-around, and rejects a result above 9. The codec
  passes strings of 2 or 3 bytes, whose value cannot overflow.
\<close>

fun atoi_digits :: "bytes \<Rightarrow> nat \<Rightarrow> nat option" where
  "atoi_digits [] n = Some n"
| "atoi_digits (ch # s) n =
     (if ch - 0x30 > 9 then None else atoi_digits s (n * 10 + unat (ch - 0x30)))"

definition Atoi :: "bytes \<Rightarrow> int option" where
  "Atoi s =
     (case s of
        [] \<Rightarrow> None
      | c # cs \<Rightarrow>
          if c = 0x2D \<or> c = 0x2B
          then (if cs = [] then None
                else map_option (\<lambda>n. if c = 0x2D then - int n else int n) (atoi_digits cs 0))
          else map_option int (atoi_digits s 0))"

section \<open>Messages\<close>

text \<open>
  \<^verbatim>\<open>Message\<close> has the type indicator and a Go map from field number to value. The map is
  an association list read with \<open>map_of\<close> and written with \<open>AList.update\<close>; the order of
  the list stands for the order in which \<^verbatim>\<open>range m.Fields\<close> visits the keys, which Go
  leaves unspecified.
\<close>

record Message =
  MTI :: bytes
  Fields :: "(int \<times> bytes) list"

definition New :: "bytes \<Rightarrow> Message" where
  "New mti = \<lparr>MTI = mti, Fields = []\<rparr>"

definition Set :: "Message \<Rightarrow> int \<Rightarrow> bytes \<Rightarrow> Message" where
  "Set m field v = m\<lparr>Fields := AList.update field v (Fields m)\<rparr>"

text \<open>\<^verbatim>\<open>Get\<close> returns the value and a presence flag; \<open>None\<close> is the flag being false.\<close>

definition Get :: "Message \<Rightarrow> int \<Rightarrow> bytes option" where
  "Get m field = map_of (Fields m) field"

section \<open>Variable-length values\<close>

definition packLLVAR :: "bytes \<Rightarrow> bytes \<Rightarrow> bytes result" where
  "packLLVAR buf v =
     (if length v > 99 then Inl (Error (TooLongLLVAR (length v)))
      else Inr (buf @ Sprintf_0d 2 (length v) @ v))"

definition packLLLVAR :: "bytes \<Rightarrow> bytes \<Rightarrow> bytes result" where
  "packLLLVAR buf v =
     (if length v > 999 then Inl (Error (TooLongLLLVAR (length v)))
      else Inr (buf @ Sprintf_0d 3 (length v) @ v))"

text \<open>
  \<^verbatim>\<open>unpackLLVAR(b, &off)\<close> returns the value and the advanced offset. When it returns an
  error the caller returns at once, so the offset of that case is not kept.
\<close>

definition unpackLLVAR :: "bytes \<Rightarrow> int \<Rightarrow> (bytes \<times> int) result" where
  "unpackLLVAR b off =
     (if off + 2 > int (length b) then Inl (Error TruncatedLLVARLength)
      else and_then (slice_expr b off (off + 2)) (\<lambda>s.
        case Atoi s of
          None \<Rightarrow> Inl (Error InvalidLLVARLength)
        | Some l \<Rightarrow>
            (let off = off + 2 in
             if off + l > int (length b) then Inl (Error TruncatedLLVARValue)
             else and_then (slice_expr b off (off + l)) (\<lambda>v. Inr (v, off + l)))))"

definition unpackLLLVAR :: "bytes \<Rightarrow> int \<Rightarrow> (bytes \<times> int) result" where
  "unpackLLLVAR b off =
     (if off + 3 > int (length b) then Inl (Error TruncatedLLLVARLength)
      else and_then (slice_expr b off (off + 3)) (\<lambda>s.
        case Atoi s of
          None \<Rightarrow> Inl (Error InvalidLLLVARLength)
        | Some l \<Rightarrow>
            (let off = off + 3 in
             if off + l > int (length b) then Inl (Error TruncatedLLLVARValue)
             else and_then (slice_expr b off (off + l)) (\<lambda>v. Inr (v, off + l)))))"

section \<open>Pack\<close>

text \<open>
  The closure \<^verbatim>\<open>set\<close> on the pair of bitmaps. It is called after the range check of the
  loop, so the shift count is between 0 and 63.
\<close>

definition set_bit_of :: "int \<Rightarrow> 64 word \<times> 64 word \<Rightarrow> 64 word \<times> 64 word" where
  "set_bit_of bit' bm =
     (case bm of (primary, secondary) \<Rightarrow>
        if bit' \<le> 64 then (primary OR push_bit (nat (64 - bit')) 1, secondary)
        else (primary, secondary OR push_bit (nat (128 - bit')) 1))"

text \<open>The loop \<^verbatim>\<open>for f := range m.Fields\<close>, over the keys in the order of the visit.\<close>

fun build_bitmaps :: "int list \<Rightarrow> 64 word \<times> 64 word \<Rightarrow> (64 word \<times> 64 word) result" where
  "build_bitmaps [] bm = Inr bm"
| "build_bitmaps (f # fs) bm =
     (if f < 1 \<or> f > 128 \<or> f = 1 then Inl (Error (UnsupportedField f))
      else build_bitmaps fs (set_bit_of f bm))"

text \<open>The \<^verbatim>\<open>switch f\<close> of the encoding loop, on the buffer \<open>body\<close>.\<close>

definition pack_field :: "int \<Rightarrow> bytes \<Rightarrow> bytes \<Rightarrow> bytes result" where
  "pack_field f v body =
     (if f = 7 then
        (if length v \<noteq> 10 then Inl (Error (MustBeDigits 7 10 (length v)))
         else Inr (body @ v))
      else if f = 11 then
        (if length v \<noteq> 6 then Inl (Error (MustBeDigits 11 6 (length v)))
         else Inr (body @ v))
      else if f = 48 then
        (case packLLLVAR body v of
           Inl (Error e) \<Rightarrow> Inl (Error (Wrapped 48 e))
         | r \<Rightarrow> r)
      else if f = 70 then
        (if length v \<noteq> 3 then Inl (Error (MustBeDigits 70 3 (length v)))
         else Inr (body @ v))
      else if f = 102 then
        (case packLLVAR body v of
           Inl (Error e) \<Rightarrow> Inl (Error (Wrapped 102 e))
         | r \<Rightarrow> r)
      else Inl (Error (NotImplemented f)))"

text \<open>The loop \<^verbatim>\<open>for f := 2; f <= 128; f++\<close> of \<^verbatim>\<open>Pack\<close>, over the list of its indices.\<close>

fun pack_fields :: "(int \<rightharpoonup> bytes) \<Rightarrow> int list \<Rightarrow> bytes \<Rightarrow> bytes result" where
  "pack_fields flds [] body = Inr body"
| "pack_fields flds (f # fs) body =
     (case flds f of
        None \<Rightarrow> pack_fields flds fs body
      | Some v \<Rightarrow> and_then (pack_field f v body) (pack_fields flds fs))"

definition Pack :: "Message \<Rightarrow> bytes result" where
  "Pack m =
     (if length (MTI m) \<noteq> 4 then Inl (Error (InvalidMTI (MTI m)))
      else and_then (build_bitmaps (map fst (Fields m)) (0, 0)) (\<lambda>(primary, secondary).
        let primary = (if secondary \<noteq> 0 then primary OR push_bit 63 1 else primary);
            body = MTI m @ PutUint64 primary;
            body = (if secondary \<noteq> 0 then body @ PutUint64 secondary else body)
        in and_then (pack_fields (map_of (Fields m)) [2..128] body) (\<lambda>msg.
             Inr (PutUint16 (of_nat (length msg)) @ msg))))"

section \<open>Unpack\<close>

text \<open>The closure \<^verbatim>\<open>present\<close>, on the two bitmaps read from the buffer.\<close>

definition present :: "64 word \<Rightarrow> 64 word \<Rightarrow> int \<Rightarrow> bool" where
  "present primary secondary bit' =
     (if bit' \<le> 64 then primary AND push_bit (nat (64 - bit')) 1 \<noteq> 0
      else secondary AND push_bit (nat (128 - bit')) 1 \<noteq> 0)"

text \<open>
  The \<^verbatim>\<open>switch f\<close> of the decoding loop. The state is the field map built so far and
  the offset \<^verbatim>\<open>off\<close> into \<open>p\<close>.
\<close>

definition unpack_field ::
  "bytes \<Rightarrow> int \<Rightarrow> (int \<times> bytes) list \<times> int \<Rightarrow> ((int \<times> bytes) list \<times> int) result" where
  "unpack_field p f st =
     (case st of (flds, off) \<Rightarrow>
        if f = 7 then
          (if off + 10 > int (length p) then Inl (Error (TruncatedDE 7))
           else and_then (slice_expr p off (off + 10)) (\<lambda>v. Inr (AList.update 7 v flds, off + 10)))
        else if f = 11 then
          (if off + 6 > int (length p) then Inl (Error (TruncatedDE 11))
           else and_then (slice_expr p off (off + 6)) (\<lambda>v. Inr (AList.update 11 v flds, off + 6)))
        else if f = 48 then
          (case unpackLLLVAR p off of
             Inl (Error e) \<Rightarrow> Inl (Error (Wrapped 48 e))
           | Inl Panic \<Rightarrow> Inl Panic
           | Inr (v, off') \<Rightarrow> Inr (AList.update 48 v flds, off'))
        else if f = 70 then
          (if off + 3 > int (length p) then Inl (Error (TruncatedDE 70))
           else and_then (slice_expr p off (off + 3)) (\<lambda>v. Inr (AList.update 70 v flds, off + 3)))
        else if f = 102 then
          (case unpackLLVAR p off of
             Inl (Error e) \<Rightarrow> Inl (Error (Wrapped 102 e))
           | Inl Panic \<Rightarrow> Inl Panic
           | Inr (v, off') \<Rightarrow> Inr (AList.update 102 v flds, off'))
        else Inl (Error (NotImplemented f)))"

text \<open>The loop \<^verbatim>\<open>for f := 2; f <= 128; f++\<close> of \<^verbatim>\<open>Unpack\<close>.\<close>

fun unpack_fields ::
  "bytes \<Rightarrow> 64 word \<Rightarrow> 64 word \<Rightarrow> int list \<Rightarrow> (int \<times> bytes) list \<times> int
     \<Rightarrow> ((int \<times> bytes) list \<times> int) result" where
  "unpack_fields p primary secondary [] st = Inr st"
| "unpack_fields p primary secondary (f # fs) st =
     (if \<not> present primary secondary f then unpack_fields p primary secondary fs st
      else and_then (unpack_field p f st) (unpack_fields p primary secondary fs))"

text \<open>
  The head of \<^verbatim>\<open>Unpack\<close>: the length indicator and the window
  \<^verbatim>\<open>p := b[2 : 2+mli]\<close> that the rest of the function reads.
\<close>

definition unpack_window :: "bytes \<Rightarrow> bytes result" where
  "unpack_window b =
     (if length b < 2 then Inl (Error BufferTooShort)
      else and_then (slice_expr b 0 2) (\<lambda>b2.
        let mli = uint (Uint16 b2) in
        if int (length b) - 2 < mli
        then Inl (Error (IncompleteMessage mli (int (length b) - 2)))
        else slice_expr b 2 (2 + mli)))"

text \<open>
  The type indicator, the two bitmaps and the offset of the first field, read from the
  window.
\<close>

definition unpack_bitmaps :: "bytes \<Rightarrow> (bytes \<times> 64 word \<times> 64 word \<times> int) result" where
  "unpack_bitmaps p =
     (if length p < 12 then Inl (Error TooShortForHeader)
      else and_then (slice_expr p 0 4) (\<lambda>mti.
        and_then (slice_expr p 4 12) (\<lambda>b8.
          let primary = Uint64 b8; off = 12 in
          if primary AND push_bit 63 1 \<noteq> 0 then
            (if int (length p) < off + 8 then Inl (Error TooShortForSecondary)
             else and_then (slice_expr p off (off + 8)) (\<lambda>s8.
               Inr (mti, primary, Uint64 s8, off + 8)))
          else Inr (mti, primary, 0, off))))"

text \<open>
  The rest of \<^verbatim>\<open>Unpack\<close> on the window: the bitmaps, the loop over the fields and the
  check that the loop has consumed the window.
\<close>

definition unpack_message :: "bytes \<Rightarrow> Message result" where
  "unpack_message p =
     and_then (unpack_bitmaps p) (\<lambda>(mti, primary, secondary, off).
       and_then (unpack_fields p primary secondary [2..128] (Fields (New mti), off))
         (\<lambda>(flds, off).
            if off \<noteq> int (length p) then Inl (Error (ExtraBytes (int (length p) - off)))
            else Inr \<lparr>MTI = mti, Fields = flds\<rparr>))"

definition Unpack :: "bytes \<Rightarrow> Message result" where
  "Unpack b = and_then (unpack_window b) unpack_message"

section \<open>The echo helpers\<close>

definition IsEchoResponse :: "Message \<Rightarrow> bool" where
  "IsEchoResponse m =
     (if MTI m \<noteq> ascii ''0810'' then False
      else if (case Get m 70 of None \<Rightarrow> True | Some v \<Rightarrow> v \<noteq> ascii ''301'') then False
      else (case Get m 11 of None \<Rightarrow> False | Some _ \<Rightarrow> True))"

definition is_ok :: "'a result \<Rightarrow> bool" where
  "is_ok r = (case r of Inl _ \<Rightarrow> False | Inr _ \<Rightarrow> True)"

section \<open>The reconnect loop of the Connector\<close>

text \<open>
  \<^verbatim>\<open>time.Duration\<close> counts nanoseconds in a signed 64-bit integer. The loop doubles
  \<open>backoff\<close> only while it is below 30 seconds, so no value of the loop leaves the 64-bit
  range and the durations are integers here.
\<close>

definition Second :: int where
  "Second = 1000000000"

text \<open>
  What one run of \<^verbatim>\<open>Connector.loop\<close> does, as the list of its calls: the callbacks
  (called when they are set), the sleeps with their duration, and the read loop of a
  session.
\<close>

datatype event = OnDown | Sleep int | OnUp | ReadLoop

text \<open>The base value: \<^verbatim>\<open>cfg.RetryBacko\<close>, or 2 seconds when that is not positive.\<close>

definition base_backoff :: "int \<Rightarrow> int" where
  "base_backoff RetryBacko = (if RetryBacko \<le> 0 then 2 * Second else RetryBacko)"

text \<open>
  The body of the \<^verbatim>\<open>for !c.closed.Load()\<close> loop, once for each dial. The list gives the
  result of each call of \<^verbatim>\<open>c.dial()\<close> up to the moment the Connector is closed: \<open>False\<close>
  is an error, \<open>True\<close> a connection whose read loop later returns.
\<close>

fun loop_from :: "int \<Rightarrow> int \<Rightarrow> bool list \<Rightarrow> event list" where
  "loop_from RetryBacko backoff [] = []"
| "loop_from RetryBacko backoff (connected # dials) =
     (if \<not> connected then
        [OnDown, Sleep backoff] @
        loop_from RetryBacko (if backoff < 30 * Second then backoff * 2 else backoff) dials
      else
        [OnUp, ReadLoop, OnDown] @ loop_from RetryBacko (base_backoff RetryBacko) dials)"

definition loop :: "int \<Rightarrow> bool list \<Rightarrow> event list" where
  "loop RetryBacko dials = loop_from RetryBacko (base_backoff RetryBacko) dials"

fun sleeps :: "event list \<Rightarrow> int list" where
  "sleeps [] = []"
| "sleeps (Sleep d # es) = d # sleeps es"
| "sleeps (_ # es) = sleeps es"

section \<open>Frames whose length prefixes are decimal digits\<close>

text \<open>
  The next three definitions are not part of the program. They state a condition on an
  input of \<open>Unpack\<close> that is used in the result on \<open>Pack\<close> after \<open>Unpack\<close>: every
  length prefix that the decoding loop reads, 3 bytes for the LLLVAR field 48 and 2 bytes
  for the LLVAR field 102, consists of the ASCII digits \<^verbatim>\<open>0\<close> to \<^verbatim>\<open>9\<close>.
  \<open>digit_prefixes\<close> follows the decoding loop \<open>unpack_fields\<close> and looks at the
  bytes at the offset where the loop reads each prefix; \<open>digit_length_prefixes\<close> starts
  it where \<open>Unpack\<close> starts its loop. On an input that \<open>Unpack\<close> rejects before the loop
  there is no prefix to look at.
\<close>

definition decimal_digits :: "bytes \<Rightarrow> bool" where
  "decimal_digits s = list_all (\<lambda>c. 0x30 \<le> c \<and> c \<le> 0x39) s"

fun digit_prefixes ::
  "bytes \<Rightarrow> 64 word \<Rightarrow> 64 word \<Rightarrow> int list \<Rightarrow> (int \<times> bytes) list \<times> int \<Rightarrow> bool" where
  "digit_prefixes p primary secondary [] st = True"
| "digit_prefixes p primary secondary (f # fs) st =
     (if \<not> present primary secondary f then digit_prefixes p primary secondary fs st
      else (f = 48 \<longrightarrow> decimal_digits (take 3 (drop (nat (snd st)) p))) \<and>
           (f = 102 \<longrightarrow> decimal_digits (take 2 (drop (nat (snd st)) p))) \<and>
           (case unpack_field p f st of
              Inl _ \<Rightarrow> True
            | Inr st' \<Rightarrow> digit_prefixes p primary secondary fs st'))"

definition digit_length_prefixes :: "bytes \<Rightarrow> bool" where
  "digit_length_prefixes b =
     (case unpack_window b of
        Inl _ \<Rightarrow> True
      | Inr p \<Rightarrow>
          (case unpack_bitmaps p of
             Inl _ \<Rightarrow> True
           | Inr (mti, primary, secondary, off) \<Rightarrow>
               digit_prefixes p primary secondary [2..128] ([], off)))"

section \<open>A bound used in the proofs\<close>

text \<open>
  The largest number of bytes the encoding loop of \<open>Pack\<close> can append for field \<open>f\<close>:
  the fixed lengths, and the longest LLVAR and LLLVAR values with their prefixes.
\<close>

definition max_encoded :: "int \<Rightarrow> nat" where
  "max_encoded f =
     (if f = 7 then 10 else if f = 11 then 6 else if f = 48 then 1002
      else if f = 70 then 3 else if f = 102 then 101 else 0)"

declare upto_rec_numeral [simp del]

section \<open>The bits of the bitmaps\<close>

lemma bit_push_bit_one: "bit (push_bit m 1 :: 64 word) n \<longleftrightarrow> n = m \<and> n < 64"
  by (auto simp add: bit_simps)

lemma bit_two_power: "bit (2 ^ m :: 64 word) n \<longleftrightarrow> n = m \<and> n < 64"
  by (auto simp add: bit_simps)

lemma test_bit_iff: "(w :: 64 word) AND push_bit n 1 \<noteq> 0 \<longleftrightarrow> bit w n"
  by (simp add: bit_iff_and_push_bit_not_eq_0)

lemma set_bit_of_low:
  "2 \<le> k \<Longrightarrow> k \<le> 64 \<Longrightarrow> set_bit_of k (p0, s0) = (p, s) \<Longrightarrow>
     s = s0 \<and> (bit p n \<longleftrightarrow> bit p0 n \<or> (n < 64 \<and> 64 - int n = k))"
  by (auto simp add: set_bit_of_def bit_or_iff bit_two_power)

lemma set_bit_of_high:
  "64 < k \<Longrightarrow> k \<le> 128 \<Longrightarrow> set_bit_of k (p0, s0) = (p, s) \<Longrightarrow>
     p = p0 \<and> (bit s n \<longleftrightarrow> bit s0 n \<or> (n < 64 \<and> 128 - int n = k))"
  by (auto simp add: set_bit_of_def bit_or_iff bit_two_power)

lemma build_bitmaps_bits:
  "build_bitmaps ks (p0, s0) = Inr (p, s) \<Longrightarrow>
     (\<forall>k \<in> set ks. 2 \<le> k \<and> k \<le> 128) \<and>
     (\<forall>n. bit p n \<longleftrightarrow> bit p0 n \<or> (n < 64 \<and> 64 - int n \<in> set ks)) \<and>
     (\<forall>n. bit s n \<longleftrightarrow> bit s0 n \<or> (n < 64 \<and> 128 - int n \<in> set ks))"
proof (induction ks arbitrary: p0 s0)
  case Nil
  then show ?case by simp
next
  case (Cons k ks)
  from Cons.prems have k: "2 \<le> k" "k \<le> 128"
    by (auto split: if_splits)
  obtain p1 s1 where b1: "set_bit_of k (p0, s0) = (p1, s1)"
    by (cases "set_bit_of k (p0, s0)")
  with Cons.prems k have "build_bitmaps ks (p1, s1) = Inr (p, s)"
    by simp
  note IH = Cons.IH [OF this]
  show ?case
  proof (cases "k \<le> 64")
    case True
    have s1: "s1 = s0" and p1: "\<And>n. bit p1 n \<longleftrightarrow> bit p0 n \<or> (n < 64 \<and> 64 - int n = k)"
      using set_bit_of_low [OF k(1) True b1] by auto
    have "128 - int n \<noteq> k" if "n < 64" for n
      using that True by linarith
    with IH k show ?thesis
      by (auto simp add: p1 s1)
  next
    case False
    then have hi: "64 < k" by simp
    have p1: "p1 = p0" and s1: "\<And>n. bit s1 n \<longleftrightarrow> bit s0 n \<or> (n < 64 \<and> 128 - int n = k)"
      using set_bit_of_high [OF hi k(2) b1] by auto
    have "64 - int n \<noteq> k" for n
      using hi by linarith
    with IH k show ?thesis
      by (auto simp add: p1 s1)
  qed
qed

section \<open>Big-endian words\<close>

lemma Uint16_PutUint16: "Uint16 (PutUint16 v) = v"
  unfolding Uint16_def PutUint16_def
  apply (rule bit_word_eqI)
  subgoal for n
    apply (cases "bit v n")
     apply (simp_all add: bit_simps cong: conj_cong)
    apply arith
    done
  done

lemma Uint64_PutUint64: "Uint64 (PutUint64 v) = v"
  unfolding Uint64_def PutUint64_def
  apply (rule bit_word_eqI)
  subgoal for n
    apply (cases "bit v n")
     apply (simp_all add: bit_simps less_diff_conv2 cong: conj_cong)
    apply linarith
    done
  done

section \<open>Decimal length prefixes\<close>

lemma digit_byte:
  assumes "d < 10"
  shows "(48 + of_nat d :: byte) - 48 = of_nat d"
    and "\<not> (of_nat d :: byte) > 9"
    and "unat (of_nat d :: byte) = d"
    and "(48 + of_nat d :: byte) \<noteq> 45"
    and "(48 + of_nat d :: byte) \<noteq> 43"
proof -
  show "(48 + of_nat d :: byte) - 48 = of_nat d" by simp
  show u: "unat (of_nat d :: byte) = d" using assms by (simp add: unat_of_nat)
  show "\<not> (of_nat d :: byte) > 9" using assms u by (simp add: word_less_nat_alt)
  have "unat (of_nat (48 + d) :: byte) = 48 + d"
    unfolding unat_of_nat using assms by simp
  then have u48: "unat (48 + of_nat d :: byte) = 48 + d" by simp
  show "(48 + of_nat d :: byte) \<noteq> 45"
  proof
    assume "(48 + of_nat d :: byte) = 45"
    then have "unat (48 + of_nat d :: byte) = unat (45 :: byte)" by (rule arg_cong)
    with u48 show False by simp
  qed
  show "(48 + of_nat d :: byte) \<noteq> 43"
  proof
    assume "(48 + of_nat d :: byte) = 43"
    then have "unat (48 + of_nat d :: byte) = unat (43 :: byte)" by (rule arg_cong)
    with u48 show False by simp
  qed
qed

lemma decimal_small: "n < 10 \<Longrightarrow> decimal n = [48 + of_nat n]"
  by (simp add: decimal.simps)

lemma decimal_two:
  "10 \<le> n \<Longrightarrow> n < 100 \<Longrightarrow> decimal n = [48 + of_nat (n div 10), 48 + of_nat (n mod 10)]"
  by (subst decimal.simps) (simp add: decimal_small)

lemma decimal_three:
  assumes "100 \<le> n" "n < 1000"
  shows "decimal n = [48 + of_nat (n div 100), 48 + of_nat (n div 10 mod 10), 48 + of_nat (n mod 10)]"
proof -
  have "n div 10 div 10 = n div 100"
    by (simp add: div_mult2_eq [symmetric])
  with assms show ?thesis
    by (subst decimal.simps) (simp add: decimal_two)
qed

lemma Sprintf_02d:
  "n \<le> 99 \<Longrightarrow> Sprintf_0d 2 n = [48 + of_nat (n div 10), 48 + of_nat (n mod 10)]"
  by (cases "n < 10") (simp_all add: Sprintf_0d_def decimal_small decimal_two numeral_2_eq_2)

lemma Sprintf_03d:
  "n \<le> 999 \<Longrightarrow>
   Sprintf_0d 3 n = [48 + of_nat (n div 100), 48 + of_nat (n div 10 mod 10), 48 + of_nat (n mod 10)]"
  by (cases "n < 10"; cases "n < 100")
     (simp_all add: Sprintf_0d_def decimal_small decimal_two decimal_three numeral_2_eq_2)

lemma Atoi_two_digits:
  assumes "a < 10" "b < 10"
  shows "Atoi [48 + of_nat a, 48 + of_nat b] = Some (int (a * 10 + b))"
  using digit_byte [OF assms(1)] digit_byte [OF assms(2)]
  by (simp add: Atoi_def)

lemma Atoi_three_digits:
  assumes "a < 10" "b < 10" "c < 10"
  shows "Atoi [48 + of_nat a, 48 + of_nat b, 48 + of_nat c] = Some (int ((a * 10 + b) * 10 + c))"
  using digit_byte [OF assms(1)] digit_byte [OF assms(2)] digit_byte [OF assms(3)]
  by (simp add: Atoi_def)

lemma Atoi_Sprintf_02d:
  assumes "n \<le> 99"
  shows "Atoi (Sprintf_0d 2 n) = Some (int n)"
proof -
  have "n div 10 < 10" "n mod 10 < 10" using assms by simp_all
  from Atoi_two_digits [OF this] show ?thesis
    using assms by (simp add: Sprintf_02d)
qed

lemma Atoi_Sprintf_03d:
  assumes "n \<le> 999"
  shows "Atoi (Sprintf_0d 3 n) = Some (int n)"
proof -
  have "n div 100 < 10" "n div 10 mod 10 < 10" "n mod 10 < 10" using assms by simp_all
  from Atoi_three_digits [OF this] have
    "Atoi (Sprintf_0d 3 n) = Some (int ((n div 100 * 10 + n div 10 mod 10) * 10 + n mod 10))"
    using assms by (simp only: Sprintf_03d)
  moreover have "n div 100 * 10 + n div 10 mod 10 = n div 10"
    using div_mult_mod_eq [of "n div 10" 10] by (simp add: div_mult2_eq [symmetric])
  then have "(n div 100 * 10 + n div 10 mod 10) * 10 + n mod 10 = n"
    by simp
  ultimately show ?thesis by simp
qed

lemma length_Sprintf_02d: "n \<le> 99 \<Longrightarrow> length (Sprintf_0d 2 n) = 2"
  by (simp add: Sprintf_02d)

lemma length_Sprintf_03d: "n \<le> 999 \<Longrightarrow> length (Sprintf_0d 3 n) = 3"
  by (simp add: Sprintf_03d)

section \<open>One field, packed and unpacked\<close>

lemma slice_middle':
  "off = int (length pre) \<Longrightarrow> n = int (length v) \<Longrightarrow> slice_expr (pre @ v @ suf) off (off + n) = Inr v"
  by (simp add: slice_expr_def)

lemma unpackLLVAR_packed:
  assumes "length v \<le> 99"
  shows "unpackLLVAR (pre @ (Sprintf_0d 2 (length v) @ v) @ suf) (int (length pre)) =
           Inr (v, int (length pre) + int (length (Sprintf_0d 2 (length v) @ v)))"
proof -
  let ?h = "Sprintf_0d 2 (length v)"
  have len: "length ?h = 2" using assms by (rule length_Sprintf_02d)
  have s1: "slice_expr (pre @ ?h @ v @ suf) (int (length pre)) (int (length pre) + 2) = Inr ?h"
    using slice_middle' [of "int (length pre)" pre 2 ?h "v @ suf"] len by simp
  have s2: "slice_expr (pre @ ?h @ v @ suf) (int (length pre) + 2) (int (length pre) + 2 + int (length v)) = Inr v"
    using slice_middle' [of "int (length pre) + 2" "pre @ ?h" "int (length v)" v suf] len by simp
  show ?thesis
    using len by (simp add: unpackLLVAR_def and_then_def s1 s2 Atoi_Sprintf_02d [OF assms] Let_def)
qed

lemma unpackLLLVAR_packed:
  assumes "length v \<le> 999"
  shows "unpackLLLVAR (pre @ (Sprintf_0d 3 (length v) @ v) @ suf) (int (length pre)) =
           Inr (v, int (length pre) + int (length (Sprintf_0d 3 (length v) @ v)))"
proof -
  let ?h = "Sprintf_0d 3 (length v)"
  have len: "length ?h = 3" using assms by (rule length_Sprintf_03d)
  have s1: "slice_expr (pre @ ?h @ v @ suf) (int (length pre)) (int (length pre) + 3) = Inr ?h"
    using slice_middle' [of "int (length pre)" pre 3 ?h "v @ suf"] len by simp
  have s2: "slice_expr (pre @ ?h @ v @ suf) (int (length pre) + 3) (int (length pre) + 3 + int (length v)) = Inr v"
    using slice_middle' [of "int (length pre) + 3" "pre @ ?h" "int (length v)" v suf] len by simp
  show ?thesis
    using len by (simp add: unpackLLLVAR_def and_then_def s1 s2 Atoi_Sprintf_03d [OF assms] Let_def)
qed

lemma unpack_field_packed:
  assumes "pack_field f v body = Inr r"
  shows "\<exists>enc. r = body @ enc \<and>
           (\<forall>suf flds. unpack_field (body @ enc @ suf) f (flds, int (length body)) =
              Inr (AList.update f v flds, int (length body) + int (length enc)))"
proof -
  consider "f = 7" | "f = 11" | "f = 48" | "f = 70" | "f = 102"
    using assms by (auto simp add: pack_field_def split: if_splits)
  then show ?thesis
  proof cases
    case 1
    with assms have "length v = 10" "r = body @ v"
      by (auto simp add: pack_field_def split: if_splits)
    then show ?thesis using 1
      by (intro exI [of _ v]) (simp add: unpack_field_def and_then_def slice_middle' [of _ body _ v])
  next
    case 2
    with assms have "length v = 6" "r = body @ v"
      by (auto simp add: pack_field_def split: if_splits)
    then show ?thesis using 2
      by (intro exI [of _ v]) (simp add: unpack_field_def and_then_def slice_middle' [of _ body _ v])
  next
    case 3
    with assms have "length v \<le> 999" "r = body @ Sprintf_0d 3 (length v) @ v"
      by (auto simp add: pack_field_def packLLLVAR_def split: if_splits)
    then show ?thesis using 3 unpackLLLVAR_packed [of v body]
      by (intro exI [of _ "Sprintf_0d 3 (length v) @ v"]) (simp add: unpack_field_def)
  next
    case 4
    with assms have "length v = 3" "r = body @ v"
      by (auto simp add: pack_field_def split: if_splits)
    then show ?thesis using 4
      by (intro exI [of _ v]) (simp add: unpack_field_def and_then_def slice_middle' [of _ body _ v])
  next
    case 5
    with assms have "length v \<le> 99" "r = body @ Sprintf_0d 2 (length v) @ v"
      by (auto simp add: pack_field_def packLLVAR_def split: if_splits)
    then show ?thesis using 5 unpackLLVAR_packed [of v body]
      by (intro exI [of _ "Sprintf_0d 2 (length v) @ v"]) (simp add: unpack_field_def)
  qed
qed

section \<open>The two loops over the fields\<close>

lemma unpack_pack_fields:
  assumes "pack_fields flds fs body = Inr msg"
    and "\<forall>f \<in> set fs. present pr se f \<longleftrightarrow> flds f \<noteq> None"
  shows "\<exists>t. msg = body @ t \<and>
           (\<forall>suf acc. \<exists>acc'.
              unpack_fields (body @ t @ suf) pr se fs (acc, int (length body)) =
                Inr (acc', int (length body) + int (length t)) \<and>
              map_of acc' = (\<lambda>k. if k \<in> set fs \<and> flds k \<noteq> None then flds k else map_of acc k))"
  using assms
proof (induction fs arbitrary: body)
  case Nil
  then show ?case by simp
next
  case (Cons f fs)
  from Cons.prems(2) have pres: "\<forall>f \<in> set fs. present pr se f \<longleftrightarrow> flds f \<noteq> None"
    by simp
  show ?case
  proof (cases "flds f")
    case None
    with Cons.prems have "pack_fields flds fs body = Inr msg" and np: "\<not> present pr se f"
      by simp_all
    from Cons.IH [OF this(1) pres] obtain t where t: "msg = body @ t"
      and walk: "\<And>suf acc. \<exists>acc'.
              unpack_fields (body @ t @ suf) pr se fs (acc, int (length body)) =
                Inr (acc', int (length body) + int (length t)) \<and>
              map_of acc' = (\<lambda>k. if k \<in> set fs \<and> flds k \<noteq> None then flds k else map_of acc k)"
      by blast
    show ?thesis
    proof (intro exI [of _ t] conjI allI)
      show "msg = body @ t" by (rule t)
    next
      fix suf acc
      from walk [of suf acc] obtain acc' where
        "unpack_fields (body @ t @ suf) pr se fs (acc, int (length body)) =
           Inr (acc', int (length body) + int (length t))"
        "map_of acc' = (\<lambda>k. if k \<in> set fs \<and> flds k \<noteq> None then flds k else map_of acc k)"
        by blast
      with np None show "\<exists>acc'.
              unpack_fields (body @ t @ suf) pr se (f # fs) (acc, int (length body)) =
                Inr (acc', int (length body) + int (length t)) \<and>
              map_of acc' = (\<lambda>k. if k \<in> set (f # fs) \<and> flds k \<noteq> None then flds k else map_of acc k)"
        by (intro exI [of _ acc']) (auto simp add: fun_eq_iff)
    qed
  next
    case (Some v)
    with Cons.prems obtain r where r: "pack_field f v body = Inr r"
      and rest: "pack_fields flds fs r = Inr msg" and p: "present pr se f"
      by (auto simp add: and_then_def split: sum.splits)
    from unpack_field_packed [OF r] obtain enc where enc: "r = body @ enc"
      and step: "\<And>suf acc. unpack_field (body @ enc @ suf) f (acc, int (length body)) =
              Inr (AList.update f v acc, int (length body) + int (length enc))"
      by blast
    from Cons.IH [OF rest pres] obtain t where t: "msg = r @ t"
      and walk: "\<And>suf acc. \<exists>acc'.
              unpack_fields (r @ t @ suf) pr se fs (acc, int (length r)) =
                Inr (acc', int (length r) + int (length t)) \<and>
              map_of acc' = (\<lambda>k. if k \<in> set fs \<and> flds k \<noteq> None then flds k else map_of acc k)"
      by blast
    show ?thesis
    proof (intro exI [of _ "enc @ t"] conjI allI)
      show "msg = body @ enc @ t" using t enc by simp
    next
      fix suf acc
      from walk [of suf "AList.update f v acc"] obtain acc' where
        w: "unpack_fields (r @ t @ suf) pr se fs (AList.update f v acc, int (length r)) =
           Inr (acc', int (length r) + int (length t))"
        and m: "map_of acc' =
           (\<lambda>k. if k \<in> set fs \<and> flds k \<noteq> None then flds k else map_of (AList.update f v acc) k)"
        by blast
      have "unpack_fields (body @ (enc @ t) @ suf) pr se (f # fs) (acc, int (length body)) =
                Inr (acc', int (length body) + int (length (enc @ t)))"
        using p step [of "t @ suf" acc] w enc by (simp add: and_then_def)
      moreover have "map_of acc' =
          (\<lambda>k. if k \<in> set (f # fs) \<and> flds k \<noteq> None then flds k else map_of acc k)"
        using Some by (auto simp add: m update_conv' fun_eq_iff)
      ultimately show "\<exists>acc'.
              unpack_fields (body @ (enc @ t) @ suf) pr se (f # fs) (acc, int (length body)) =
                Inr (acc', int (length body) + int (length (enc @ t))) \<and>
              map_of acc' = (\<lambda>k. if k \<in> set (f # fs) \<and> flds k \<noteq> None then flds k else map_of acc k)"
        by blast
    qed
  qed
qed

section \<open>The length of the packed message\<close>

lemma pack_field_length:
  "pack_field f v body = Inr r \<Longrightarrow> length r \<le> length body + max_encoded f"
  by (auto simp add: pack_field_def packLLVAR_def packLLLVAR_def max_encoded_def
      length_Sprintf_02d length_Sprintf_03d split: if_splits)

lemma pack_fields_length:
  "pack_fields flds fs body = Inr msg \<Longrightarrow>
     length body \<le> length msg \<and> length msg \<le> length body + sum_list (map max_encoded fs)"
proof (induction fs arbitrary: body)
  case Nil
  then show ?case by simp
next
  case (Cons f fs)
  show ?case
  proof (cases "flds f")
    case None
    with Cons.prems have "pack_fields flds fs body = Inr msg" by simp
    from Cons.IH [OF this] show ?thesis by simp
  next
    case (Some v)
    with Cons.prems obtain r where r: "pack_field f v body = Inr r"
      and rest: "pack_fields flds fs r = Inr msg"
      by (auto simp add: and_then_def split: sum.splits)
    from unpack_field_packed [OF r] have "length body \<le> length r" by auto
    with pack_field_length [OF r] Cons.IH [OF rest] show ?thesis by simp
  qed
qed

lemma sum_max_encoded: "sum_list (map max_encoded [2..128]) = 1122"
  by (simp add: max_encoded_def upto_rec_numeral)

lemma pack_fields_all_length:
  "pack_fields flds [2..128] body = Inr msg \<Longrightarrow>
     length body \<le> length msg \<and> length msg \<le> length body + 1122"
  using pack_fields_length [of flds "[2..128]" body msg] by (simp only: sum_max_encoded)

section \<open>The bitmaps that Pack writes\<close>

lemma present_bit:
  "present pr se f = (if f \<le> 64 then bit pr (nat (64 - f)) else bit se (nat (128 - f)))"
  by (simp only: present_def test_bit_iff)

lemma word_neq_0_bit: "(w :: 64 word) \<noteq> 0 \<longleftrightarrow> (\<exists>n. bit w n)"
proof
  assume "w \<noteq> 0"
  then show "\<exists>n. bit w n" by (auto simp add: bit_eq_iff [of w 0])
next
  assume "\<exists>n. bit w n"
  then show "w \<noteq> 0" by auto
qed

lemma Pack_bitmaps:
  assumes "build_bitmaps ks (0, 0) = Inr (pr0, se)"
  defines "pr \<equiv> (if se \<noteq> 0 then pr0 OR push_bit 63 1 else pr0)"
  shows "\<forall>k \<in> set ks. 2 \<le> k \<and> k \<le> 128"
    and "se \<noteq> 0 \<longleftrightarrow> (\<exists>k \<in> set ks. 64 < k)"
    and "bit pr 63 \<longleftrightarrow> se \<noteq> 0"
    and "\<forall>f. 2 \<le> f \<and> f \<le> 128 \<longrightarrow> (present pr se f \<longleftrightarrow> f \<in> set ks)"
proof -
  from build_bitmaps_bits [OF assms(1)]
  have keys: "\<forall>k \<in> set ks. 2 \<le> k \<and> k \<le> 128"
    and p0: "\<And>n. bit pr0 n \<longleftrightarrow> n < 64 \<and> 64 - int n \<in> set ks"
    and s: "\<And>n. bit se n \<longleftrightarrow> n < 64 \<and> 128 - int n \<in> set ks"
    by simp_all
  show "\<forall>k \<in> set ks. 2 \<le> k \<and> k \<le> 128" by (rule keys)
  show se: "se \<noteq> 0 \<longleftrightarrow> (\<exists>k \<in> set ks. 64 < k)"
  proof
    assume "se \<noteq> 0"
    then obtain n where "bit se n" by (auto simp add: word_neq_0_bit)
    with s have "n < 64" "128 - int n \<in> set ks" by simp_all
    then show "\<exists>k \<in> set ks. 64 < k" by (intro bexI [of _ "128 - int n"]) simp_all
  next
    assume "\<exists>k \<in> set ks. 64 < k"
    then obtain k where k: "k \<in> set ks" "64 < k" by blast
    with keys have "k \<le> 128" by simp
    with k have "nat (128 - k) < 64" "128 - int (nat (128 - k)) = k" by simp_all
    with k s [of "nat (128 - k)"] have "bit se (nat (128 - k))" by simp
    then show "se \<noteq> 0" by (auto simp add: word_neq_0_bit)
  qed
  have no63: "\<not> bit pr0 63"
    using p0 [of 63] keys by auto
  have prb: "bit pr n \<longleftrightarrow> bit pr0 n \<or> (se \<noteq> 0 \<and> n = 63)" for n
  proof (cases "se \<noteq> 0")
    case True
    then have "pr = pr0 OR push_bit 63 1" unfolding pr_def by (rule if_P)
    then show ?thesis using True by (simp only: bit_or_iff bit_push_bit_one) auto
  next
    case False
    then have "pr = pr0" unfolding pr_def by (rule if_not_P)
    then show ?thesis using False by simp
  qed
  show b63: "bit pr 63 \<longleftrightarrow> se \<noteq> 0"
    using no63 by (simp add: prb)
  show "\<forall>f. 2 \<le> f \<and> f \<le> 128 \<longrightarrow> (present pr se f \<longleftrightarrow> f \<in> set ks)"
  proof (intro allI impI)
    fix f :: int assume f: "2 \<le> f \<and> f \<le> 128"
    show "present pr se f \<longleftrightarrow> f \<in> set ks"
    proof (cases "f \<le> 64")
      case True
      with f have n: "nat (64 - f) < 63" "64 - int (nat (64 - f)) = f" by simp_all
      then have "bit pr (nat (64 - f)) \<longleftrightarrow> bit pr0 (nat (64 - f))"
        by (simp add: prb)
      moreover have "present pr se f \<longleftrightarrow> bit pr (nat (64 - f))"
        using True by (simp only: present_bit if_True)
      ultimately show ?thesis using n by (simp only: p0) simp
    next
      case False
      then have hi: "\<not> f \<le> 64" by simp
      from f hi have n: "nat (128 - f) < 64" "128 - int (nat (128 - f)) = f" by simp_all
      have "present pr se f \<longleftrightarrow> bit se (nat (128 - f))"
        using hi by (simp only: present_bit if_False)
      with n show ?thesis by (simp only: s) simp
    qed
  qed
qed

section \<open>The layout of the packed message\<close>

lemma pack_fields_append:
  "pack_fields flds fs body = Inr msg \<Longrightarrow>
     \<exists>t. msg = body @ t \<and> (\<forall>body'. pack_fields flds fs body' = Inr (body' @ t))"
proof (induction fs arbitrary: body)
  case Nil
  then show ?case by simp
next
  case (Cons f fs)
  show ?case
  proof (cases "flds f")
    case None
    with Cons.prems have "pack_fields flds fs body = Inr msg" by simp
    from Cons.IH [OF this] None show ?thesis by simp
  next
    case (Some v)
    with Cons.prems obtain r where r: "pack_field f v body = Inr r"
      and rest: "pack_fields flds fs r = Inr msg"
      by (auto simp add: and_then_def split: sum.splits)
    from r obtain enc where enc: "r = body @ enc"
      and any: "\<And>body'. pack_field f v body' = Inr (body' @ enc)"
      by (auto simp add: pack_field_def packLLVAR_def packLLLVAR_def split: if_splits)
    from Cons.IH [OF rest] obtain t where t: "msg = r @ t"
      and anyt: "\<And>body'. pack_fields flds fs body' = Inr (body' @ t)"
      by blast
    show ?thesis
    proof (intro exI [of _ "enc @ t"] conjI allI)
      show "msg = body @ enc @ t" using t enc by simp
      show "pack_fields flds (f # fs) body' = Inr (body' @ enc @ t)" for body'
        using Some any [of body'] anyt [of "body' @ enc"] by (simp add: and_then_def)
    qed
  qed
qed

lemma length_PutUint16 [simp]: "length (PutUint16 v) = 2"
  by (simp add: PutUint16_def)

lemma length_PutUint64 [simp]: "length (PutUint64 v) = 8"
  by (simp add: PutUint64_def)

lemma uint_length16: "n < 65536 \<Longrightarrow> uint (of_nat n :: 16 word) = int n"
  by (simp add: unsigned_of_nat take_bit_nat_eq_self)

lemma unpack_window_framed:
  assumes "length p < 65536"
  shows "unpack_window (PutUint16 (of_nat (length p)) @ p @ xs) = Inr p"
proof -
  let ?b = "PutUint16 (of_nat (length p)) @ p @ xs"
  have s1: "slice_expr ?b 0 2 = Inr (PutUint16 (of_nat (length p)))"
    by (simp add: slice_expr_def)
  have mli: "uint (Uint16 (PutUint16 (of_nat (length p)))) = int (length p)"
    using assms by (simp only: Uint16_PutUint16 uint_length16)
  have s2: "slice_expr ?b 2 (2 + int (length p)) = Inr p"
    by (simp add: slice_expr_def)
  show ?thesis
    by (simp add: unpack_window_def s1 mli s2 and_then_def)
qed

lemma unpack_bitmaps_packed:
  assumes mti: "length mti = 4"
    and sec: "sec = (if se \<noteq> 0 then PutUint64 se else [])"
    and b63: "bit pr 63 \<longleftrightarrow> se \<noteq> 0"
    and msg: "msg = mti @ PutUint64 pr @ sec @ t"
  shows "unpack_bitmaps msg = Inr (mti, pr, se, 12 + int (length sec))"
proof -
  have l12: "\<not> length msg < 12" using msg mti by simp
  have s3: "slice_expr msg 0 4 = Inr mti"
    using mti by (simp add: slice_expr_def msg)
  have s4: "slice_expr msg 4 12 = Inr (PutUint64 pr)"
    using mti by (simp add: slice_expr_def msg)
  have top: "(pr AND push_bit 63 1 \<noteq> 0) \<longleftrightarrow> se \<noteq> 0"
    using b63 by (simp only: test_bit_iff)
  have top': "pr AND 9223372036854775808 = 0 \<longleftrightarrow> se = 0"
    using top by simp
  have l20: "se \<noteq> 0 \<Longrightarrow> \<not> int (length msg) < 20" using msg mti sec by simp
  have s5: "se \<noteq> 0 \<Longrightarrow> slice_expr msg 12 20 = Inr (PutUint64 se)"
    using mti by (simp add: slice_expr_def msg sec)
  show ?thesis
    using l12 l20 s5
    by (simp add: unpack_bitmaps_def s3 s4 and_then_def Uint64_PutUint64 top' sec)
qed

lemma Pack_layout:
  assumes "Pack m = Inr b"
  obtains pr0 se pr sec t where
    "length (MTI m) = 4"
    "build_bitmaps (map fst (Fields m)) (0, 0) = Inr (pr0, se)"
    "pr = (if se \<noteq> 0 then pr0 OR push_bit 63 1 else pr0)"
    "sec = (if se \<noteq> 0 then PutUint64 se else [])"
    "\<forall>body. pack_fields (map_of (Fields m)) [2..128] body = Inr (body @ t)"
    "b = PutUint16 (of_nat (length (MTI m @ PutUint64 pr @ sec @ t))) @ MTI m @ PutUint64 pr @ sec @ t"
proof -
  from assms have mti: "length (MTI m) = 4"
    by (simp add: Pack_def split: if_splits)
  from assms mti obtain pr0 se where
    bm: "build_bitmaps (map fst (Fields m)) (0, 0) = Inr (pr0, se)"
    by (auto simp add: Pack_def and_then_def split: sum.splits)
  define pr where "pr = (if se \<noteq> 0 then pr0 OR push_bit 63 1 else pr0)"
  define sec where "sec = (if se \<noteq> 0 then PutUint64 se else [])"
  from assms mti bm obtain msg where
    pf: "pack_fields (map_of (Fields m)) [2..128] (MTI m @ PutUint64 pr @ sec) = Inr msg"
    and b: "b = PutUint16 (of_nat (length msg)) @ msg"
    unfolding Pack_def pr_def sec_def
    by (simp only: and_then_def Let_def sum.case prod.case if_False simp_thms split: sum.splits if_splits)
       (auto split: sum.splits if_splits)
  from pack_fields_append [OF pf] obtain t where
    "msg = (MTI m @ PutUint64 pr @ sec) @ t"
    "\<And>body. pack_fields (map_of (Fields m)) [2..128] body = Inr (body @ t)"
    by blast
  with mti bm pr_def sec_def b show thesis
    by (intro that [of pr0 se pr sec t]) simp_all
qed

section \<open>Pack depends on the field map only\<close>

lemma build_bitmaps_total:
  "\<forall>k \<in> set ks. 2 \<le> k \<and> k \<le> 128 \<Longrightarrow> \<exists>p s. build_bitmaps ks bm = Inr (p, s)"
proof (induction ks arbitrary: bm)
  case Nil
  then show ?case by (cases bm) simp
next
  case (Cons k ks)
  then show ?case by simp
qed

lemma build_bitmaps_set:
  assumes "build_bitmaps ks (0, 0) = Inr (p, s)" and "set ks' = set ks"
  shows "build_bitmaps ks' (0, 0) = Inr (p, s)"
proof -
  note b = build_bitmaps_bits [OF assms(1)]
  from b assms(2) have "\<forall>k \<in> set ks'. 2 \<le> k \<and> k \<le> 128" by simp
  from build_bitmaps_total [OF this] obtain p' s' where
    b': "build_bitmaps ks' (0, 0) = Inr (p', s')" by blast
  note c = build_bitmaps_bits [OF b']
  have "p' = p" using b c assms(2) by (simp add: bit_eq_iff)
  moreover have "s' = s" using b c assms(2) by (simp add: bit_eq_iff)
  ultimately show ?thesis using b' by simp
qed

lemma Pack_same_map:
  assumes "Pack m = Inr b" and "MTI m' = MTI m" and "map_of (Fields m') = map_of (Fields m)"
  shows "Pack m' = Inr b"
proof -
  have "dom (map_of (Fields m')) = dom (map_of (Fields m))"
    using assms(3) by simp
  then have keys: "set (map fst (Fields m')) = set (map fst (Fields m))"
    by (simp add: dom_map_of_conv_image_fst)
  from assms(1) obtain p s where bm: "build_bitmaps (map fst (Fields m)) (0, 0) = Inr (p, s)"
    by (auto simp add: Pack_def and_then_def split: if_splits sum.splits)
  from build_bitmaps_set [OF bm keys] bm assms(2,3) have "Pack m' = Pack m"
    by (simp add: Pack_def)
  with assms(1) show ?thesis by simp
qed

section \<open>Unpack on a longer window\<close>

lemma slice_expr_append:
  "slice_expr p lo hi = Inr v \<Longrightarrow> slice_expr (p @ xs) lo hi = Inr v"
  by (auto simp add: slice_expr_def split: if_splits)

lemma unpackLLVAR_append:
  assumes "unpackLLVAR p off = Inr r"
  shows "unpackLLVAR (p @ xs) off = Inr r"
proof -
  from assms obtain s l v where
    g1: "\<not> off + 2 > int (length p)"
    and s1: "slice_expr p off (off + 2) = Inr s"
    and a: "Atoi s = Some l"
    and g2: "\<not> off + 2 + l > int (length p)"
    and s2: "slice_expr p (off + 2) (off + 2 + l) = Inr v"
    and r: "r = (v, off + 2 + l)"
    by (auto simp add: unpackLLVAR_def and_then_def Let_def
        split: if_splits sum.splits option.splits)
  from g1 g2 show ?thesis
    by (simp add: unpackLLVAR_def and_then_def Let_def a r
        slice_expr_append [OF s1] slice_expr_append [OF s2])
qed

lemma unpackLLLVAR_append:
  assumes "unpackLLLVAR p off = Inr r"
  shows "unpackLLLVAR (p @ xs) off = Inr r"
proof -
  from assms obtain s l v where
    g1: "\<not> off + 3 > int (length p)"
    and s1: "slice_expr p off (off + 3) = Inr s"
    and a: "Atoi s = Some l"
    and g2: "\<not> off + 3 + l > int (length p)"
    and s2: "slice_expr p (off + 3) (off + 3 + l) = Inr v"
    and r: "r = (v, off + 3 + l)"
    by (auto simp add: unpackLLLVAR_def and_then_def Let_def
        split: if_splits sum.splits option.splits)
  from g1 g2 show ?thesis
    by (simp add: unpackLLLVAR_def and_then_def Let_def a r
        slice_expr_append [OF s1] slice_expr_append [OF s2])
qed

lemma unpack_field_append:
  assumes "unpack_field p f st = Inr st'"
  shows "unpack_field (p @ xs) f st = Inr st'"
proof -
  obtain flds off where st: "st = (flds, off)" by (cases st)
  consider "f = 7" | "f = 11" | "f = 48" | "f = 70" | "f = 102"
    using assms by (auto simp add: unpack_field_def st split: if_splits)
  then show ?thesis
  proof cases
    case 1
    with assms obtain v where "\<not> off + 10 > int (length p)"
      "slice_expr p off (off + 10) = Inr v" "st' = (AList.update 7 v flds, off + 10)"
      by (auto simp add: unpack_field_def st and_then_def split: if_splits sum.splits)
    with 1 show ?thesis
      by (simp add: unpack_field_def st and_then_def slice_expr_append)
  next
    case 2
    with assms obtain v where "\<not> off + 6 > int (length p)"
      "slice_expr p off (off + 6) = Inr v" "st' = (AList.update 11 v flds, off + 6)"
      by (auto simp add: unpack_field_def st and_then_def split: if_splits sum.splits)
    with 2 show ?thesis
      by (simp add: unpack_field_def st and_then_def slice_expr_append)
  next
    case 3
    with assms obtain r where "unpackLLLVAR p off = Inr r"
      "st' = (AList.update 48 (fst r) flds, snd r)"
      by (auto simp add: unpack_field_def st split: if_splits sum.splits abort.splits)
    with 3 show ?thesis
      by (simp add: unpack_field_def st unpackLLLVAR_append split: prod.splits)
  next
    case 4
    with assms obtain v where "\<not> off + 3 > int (length p)"
      "slice_expr p off (off + 3) = Inr v" "st' = (AList.update 70 v flds, off + 3)"
      by (auto simp add: unpack_field_def st and_then_def split: if_splits sum.splits)
    with 4 show ?thesis
      by (simp add: unpack_field_def st and_then_def slice_expr_append)
  next
    case 5
    with assms obtain r where "unpackLLVAR p off = Inr r"
      "st' = (AList.update 102 (fst r) flds, snd r)"
      by (auto simp add: unpack_field_def st split: if_splits sum.splits abort.splits)
    with 5 show ?thesis
      by (simp add: unpack_field_def st unpackLLVAR_append split: prod.splits)
  qed
qed

lemma unpack_fields_append:
  "unpack_fields p pr se fs st = Inr st' \<Longrightarrow> unpack_fields (p @ xs) pr se fs st = Inr st'"
proof (induction fs arbitrary: st)
  case Nil
  then show ?case by simp
next
  case (Cons f fs)
  show ?case
  proof (cases "present pr se f")
    case False
    with Cons show ?thesis by simp
  next
    case True
    with Cons.prems obtain st1 where s: "unpack_field p f st = Inr st1"
      and r: "unpack_fields p pr se fs st1 = Inr st'"
      by (auto simp add: and_then_def split: sum.splits)
    from True unpack_field_append [OF s] Cons.IH [OF r] show ?thesis
      by (simp add: and_then_def)
  qed
qed

lemma unpack_bitmaps_append:
  assumes "unpack_bitmaps p = Inr r"
  shows "unpack_bitmaps (p @ xs) = Inr r"
proof -
  from assms obtain mti b8 where l: "\<not> length p < 12"
    and s1: "slice_expr p 0 4 = Inr mti" and s2: "slice_expr p 4 12 = Inr b8"
    by (auto simp add: unpack_bitmaps_def and_then_def split: if_splits sum.splits)
  show ?thesis
  proof (cases "Uint64 b8 AND push_bit 63 1 \<noteq> 0")
    case True
    with assms l s1 s2 obtain s8 where "\<not> int (length p) < 20"
      "slice_expr p 12 20 = Inr s8" "r = (mti, Uint64 b8, Uint64 s8, 20)"
      by (auto simp add: unpack_bitmaps_def and_then_def split: if_splits sum.splits)
    with True l show ?thesis
      by (simp add: unpack_bitmaps_def and_then_def
          slice_expr_append [OF s1] slice_expr_append [OF s2] slice_expr_append)
  next
    case False
    with assms l s1 s2 have "r = (mti, Uint64 b8, 0, 12)"
      by (auto simp add: unpack_bitmaps_def and_then_def split: if_splits sum.splits)
    with False l show ?thesis
      by (simp add: unpack_bitmaps_def and_then_def
          slice_expr_append [OF s1] slice_expr_append [OF s2])
  qed
qed

lemma unpack_message_append:
  assumes "unpack_message p = Inr m" and "xs \<noteq> []"
  shows "unpack_message (p @ xs) = Inl (Error (ExtraBytes (int (length xs))))"
proof -
  from assms(1) obtain mti pr se off0 flds where
    h: "unpack_bitmaps p = Inr (mti, pr, se, off0)"
    and w: "unpack_fields p pr se [2..128] (Fields (New mti), off0) = Inr (flds, int (length p))"
    by (auto simp add: unpack_message_def and_then_def split: sum.splits if_splits)
  from assms(2) unpack_bitmaps_append [OF h, of xs] unpack_fields_append [OF w, of xs]
  show ?thesis
    by (simp add: unpack_message_def and_then_def)
qed

lemma Unpack_framed:
  "length p < 65536 \<Longrightarrow> Unpack (PutUint16 (of_nat (length p)) @ p @ xs) = unpack_message p"
  by (simp add: Unpack_def unpack_window_framed and_then_def)

section \<open>The messages that Pack accepts\<close>

text \<open>
  \<open>Pack\<close> succeeds exactly on the messages with a type indicator of 4 bytes whose fields
  are among 7, 11, 48, 70 and 102, with 10, 6 and 3 bytes in the fixed fields 7, 11 and 70,
  at most 999 bytes in field 48 and at most 99 bytes in field 102.
\<close>

lemma is_ok_Inr [simp]: "is_ok (Inr x)" and is_ok_Inl [simp]: "\<not> is_ok (Inl a)"
  by (simp_all add: is_ok_def)

lemma is_ok_and_then: "is_ok (and_then r k) \<longleftrightarrow> (\<exists>x. r = Inr x \<and> is_ok (k x))"
  by (cases r) (simp_all add: and_then_def)

lemma pack_field_ok_iff:
  "is_ok (pack_field f v body) \<longleftrightarrow>
     f = 7 \<and> length v = 10 \<or> f = 11 \<and> length v = 6 \<or> f = 48 \<and> length v \<le> 999 \<or>
     f = 70 \<and> length v = 3 \<or> f = 102 \<and> length v \<le> 99"
  by (auto simp add: pack_field_def packLLVAR_def packLLLVAR_def)

lemma pack_fields_ok_iff:
  "is_ok (pack_fields flds fs body) \<longleftrightarrow>
     (\<forall>f \<in> set fs. \<forall>v. flds f = Some v \<longrightarrow> is_ok (pack_field f v []))"
proof (induction fs arbitrary: body)
  case Nil
  then show ?case by simp
next
  case (Cons f fs)
  show ?case
  proof (cases "flds f")
    case None
    with Cons.IH [of body] show ?thesis by simp
  next
    case (Some v)
    have "is_ok (pack_field f v body) \<longleftrightarrow> is_ok (pack_field f v [])"
      by (simp only: pack_field_ok_iff)
    moreover have "is_ok (pack_fields flds (f # fs) body) \<longleftrightarrow>
        (\<exists>r. pack_field f v body = Inr r \<and> is_ok (pack_fields flds fs r))"
      using Some by (simp add: is_ok_and_then)
    moreover have "(\<exists>r. pack_field f v body = Inr r) \<longleftrightarrow> is_ok (pack_field f v body)"
      by (cases "pack_field f v body") simp_all
    ultimately show ?thesis
      using Some Cons.IH by auto
  qed
qed

lemma build_bitmaps_ok_iff:
  "is_ok (build_bitmaps ks bm) \<longleftrightarrow> (\<forall>k \<in> set ks. 2 \<le> k \<and> k \<le> 128)"
  by (induction ks arbitrary: bm) auto

lemma Pack_succeeds_iff:
  "is_ok (Pack m) \<longleftrightarrow>
     length (MTI m) = 4 \<and>
     (\<forall>f v. map_of (Fields m) f = Some v \<longrightarrow>
        f = 7 \<and> length v = 10 \<or> f = 11 \<and> length v = 6 \<or> f = 48 \<and> length v \<le> 999 \<or>
        f = 70 \<and> length v = 3 \<or> f = 102 \<and> length v \<le> 99)"
  (is "?lhs \<longleftrightarrow> ?mti \<and> ?flds")
proof (cases "length (MTI m) = 4")
  case False
  then show ?thesis by (simp add: Pack_def)
next
  case True
  let ?ks = "map fst (Fields m)"
  have dom: "f \<in> set ?ks \<longleftrightarrow> (\<exists>v. map_of (Fields m) f = Some v)" for f
    using map_of_eq_None_iff [of "Fields m" f] by auto
  have flds: "?flds \<longleftrightarrow> (\<forall>f v. map_of (Fields m) f = Some v \<longrightarrow> is_ok (pack_field f v []))"
    by (simp only: pack_field_ok_iff)
  show ?thesis
  proof (cases "build_bitmaps ?ks (0, 0)")
    case (Inl a)
    then have "\<not> is_ok (build_bitmaps ?ks (0, 0))" by simp
    then obtain k where k: "k \<in> set ?ks" "\<not> (2 \<le> k \<and> k \<le> 128)"
      by (auto simp only: build_bitmaps_ok_iff)
    from k(1) obtain v where "map_of (Fields m) k = Some v" using dom [of k] by blast
    with k(2) have "\<not> ?flds" by force
    moreover from Inl True have "\<not> ?lhs" by (simp add: Pack_def and_then_def)
    ultimately show ?thesis by simp
  next
    case (Inr bm)
    then have "is_ok (build_bitmaps ?ks (0, 0))" by simp
    then have keys: "\<forall>k \<in> set ?ks. 2 \<le> k \<and> k \<le> 128"
      by (simp only: build_bitmaps_ok_iff)
    have inrange: "2 \<le> f \<and> f \<le> 128" if "map_of (Fields m) f = Some v" for f v
      using that keys dom [of f] by blast
    obtain p s where bm: "bm = (p, s)" by (cases bm)
    from True Inr bm obtain body where
      "Pack m = and_then (pack_fields (map_of (Fields m)) [2..128] body)
         (\<lambda>msg. Inr (PutUint16 (of_nat (length msg)) @ msg))"
      by (simp add: Pack_def and_then_def Let_def)
    then have "?lhs \<longleftrightarrow> is_ok (pack_fields (map_of (Fields m)) [2..128] body)"
      by (cases "pack_fields (map_of (Fields m)) [2..128] body") (simp_all add: and_then_def)
    also have "\<dots> \<longleftrightarrow>
        (\<forall>f \<in> set [2..128]. \<forall>v. map_of (Fields m) f = Some v \<longrightarrow> is_ok (pack_field f v []))"
      by (rule pack_fields_ok_iff)
    also have "\<dots> \<longleftrightarrow> (\<forall>f v. map_of (Fields m) f = Some v \<longrightarrow> is_ok (pack_field f v []))"
      using inrange by fastforce
    finally show ?thesis using True flds by simp
  qed
qed

text \<open>Writing a variable-length field into a message that \<open>Pack\<close> accepts.\<close>

lemma Pack_Set_variable_ok_iff:
  assumes "is_ok (Pack m)"
  shows "is_ok (Pack (Set m 102 v)) \<longleftrightarrow> length v \<le> 99"
    and "is_ok (Pack (Set m 48 v)) \<longleftrightarrow> length v \<le> 999"
  using assms unfolding Pack_succeeds_iff
  by (auto simp add: Set_def update_conv')

section \<open>The echo response predicate\<close>

text \<open>
  C9. For every message, \<open>IsEchoResponse\<close> is true exactly when the type indicator is
  \<^verbatim>\<open>"0810"\<close>, field 70 is present with the value \<^verbatim>\<open>"301"\<close>, and field 11 is present.
\<close>

theorem IsEchoResponse_iff:
  "IsEchoResponse m \<longleftrightarrow>
     MTI m = ascii ''0810'' \<and> Get m 70 = Some (ascii ''301'') \<and> Get m 11 \<noteq> None"
  by (simp add: IsEchoResponse_def split: option.split)

theorem IsEchoResponse_iff_witness:
  "IsEchoResponse (Set (Set (New (ascii ''0810'')) 11 (ascii ''000007'')) 70 (ascii ''301'')) \<and>
   \<not> IsEchoResponse (Set (Set (New (ascii ''0810'')) 11 (ascii ''000007'')) 70 (ascii ''999''))"
  using
    IsEchoResponse_iff [of "Set (Set (New (ascii ''0810'')) 11 (ascii ''000007'')) 70 (ascii ''301'')"]
    IsEchoResponse_iff [of "Set (Set (New (ascii ''0810'')) 11 (ascii ''000007'')) 70 (ascii ''999'')"]
  by (simp add: Set_def New_def Get_def ascii_def)

section \<open>The limits of the variable-length values\<close>

lemma packLLVAR_ok_iff: "is_ok (packLLVAR buf v) \<longleftrightarrow> length v \<le> 99"
  by (simp add: packLLVAR_def is_ok_def)

lemma packLLLVAR_ok_iff: "is_ok (packLLLVAR buf v) \<longleftrightarrow> length v \<le> 999"
  by (simp add: packLLLVAR_def is_ok_def)

lemma pack_fields_single_102:
  "pack_fields [102 \<mapsto> v] [2..128] body = and_then (pack_field 102 v body) Inr"
  by (simp add: upto_rec_numeral and_then_def split: sum.split)

lemma pack_fields_single_48:
  "pack_fields [48 \<mapsto> v] [2..128] body = and_then (pack_field 48 v body) Inr"
  by (simp add: upto_rec_numeral and_then_def split: sum.split)

text \<open>
  A message whose only field is the LLVAR field 102 or the LLLVAR field 48: at the limit
  \<open>Pack\<close> succeeds, one byte above it \<open>Pack\<close> returns the error of \<open>packLLVAR\<close> or
  \<open>packLLLVAR\<close>.
\<close>

lemma Pack_single_variable_field:
  assumes "length mti = 4"
  shows
    "(length v = 99 \<longrightarrow> is_ok (Pack \<lparr>MTI = mti, Fields = [(102, v)]\<rparr>)) \<and>
     (length v = 100 \<longrightarrow>
        Pack \<lparr>MTI = mti, Fields = [(102, v)]\<rparr> = Inl (Error (Wrapped 102 (TooLongLLVAR 100)))) \<and>
     (length v = 999 \<longrightarrow> is_ok (Pack \<lparr>MTI = mti, Fields = [(48, v)]\<rparr>)) \<and>
     (length v = 1000 \<longrightarrow>
        Pack \<lparr>MTI = mti, Fields = [(48, v)]\<rparr> = Inl (Error (Wrapped 48 (TooLongLLLVAR 1000))))"
  using assms
  by (simp add: Pack_def set_bit_of_def pack_fields_single_102 pack_fields_single_48
      pack_field_def packLLVAR_def packLLLVAR_def and_then_def is_ok_def)

text \<open>
  On the two variable-length fields that \<open>Pack\<close> encodes the limits are enforced at the
  boundary. In any message that \<open>Pack\<close> accepts, setting the LLVAR field 102 to a value
  of 99 bytes gives a message that packs, and a value of 100 bytes one on which \<open>Pack\<close>
  fails; setting the LLLVAR field 48 to a value of 999 bytes gives a message that packs,
  and a value of 1000 bytes one on which \<open>Pack\<close> fails.
\<close>

lemma Pack_limits_fields_102_48:
  assumes "is_ok (Pack m)"
  shows
    "(length v = 99 \<longrightarrow> is_ok (Pack (Set m 102 v))) \<and>
     (length v = 100 \<longrightarrow> \<not> is_ok (Pack (Set m 102 v))) \<and>
     (length v = 999 \<longrightarrow> is_ok (Pack (Set m 48 v))) \<and>
     (length v = 1000 \<longrightarrow> \<not> is_ok (Pack (Set m 48 v)))"
  using Pack_Set_variable_ok_iff [OF assms, of v] by simp

text \<open>
  The other variable-length fields of the field table \<^verbatim>\<open>CommonSpec\<close> (LLVAR 2, 32 and
  35; LLLVAR 54, 55 and 60 to 63) reach the default branch of the switch of \<open>Pack\<close>,
  whatever the length of the value.
\<close>

lemma Pack_variable_field_not_implemented:
  assumes "length mti = 4" and "f \<in> {2, 32, 35, 54, 55, 60, 61, 62, 63}"
  shows "Pack (Set (New mti) f v) = Inl (Error (NotImplemented f))"
  using assms
  by (elim insertE emptyE)
    (simp_all add: Pack_def New_def Set_def and_then_def set_bit_of_def pack_field_def
      upto_rec_numeral)

text \<open>
  C8. The message of \<^verbatim>\<open>TestPackLLVARTooLong\<close> with one byte less: type indicator
  \<^verbatim>\<open>"0200"\<close> and the LLVAR field 2 (primary account number) set to 99 bytes, a length
  within the limit. \<open>Pack\<close> does not succeed: it returns the error of the default branch
  of its switch.
\<close>

theorem Pack_field_2_within_limit_fails:
  "Pack (Set (New (ascii ''0200'')) 2 (replicate 99 0x31)) = Inl (Error (NotImplemented 2))"
  by (simp add: Pack_def New_def Set_def ascii_def and_then_def set_bit_of_def PutUint64_def
      pack_field_def upto_rec_numeral)

section \<open>Fields of the field table that Pack does not encode\<close>

text \<open>
  C2. The message of \<^verbatim>\<open>TestBadDataResponse\<close>, with type indicator \<^verbatim>\<open>"0210"\<close> and field 39
  set to \<^verbatim>\<open>"30"\<close>: \<open>Pack\<close> returns the error of the default branch of its switch and no
  bytes, so there is nothing to unpack.
\<close>

theorem Pack_field_39_not_implemented:
  "Pack (Set (New (ascii ''0210'')) 39 (ascii ''30'')) = Inl (Error (NotImplemented 39))"
  by (simp add: Pack_def New_def Set_def ascii_def and_then_def set_bit_of_def PutUint64_def
      pack_field_def upto_rec_numeral)

text \<open>
  C1. A message that satisfies the constraints of the field table, with type indicator
  \<^verbatim>\<open>"0200"\<close> and the fixed field 3 (processing code, 6 digits) set to \<^verbatim>\<open>"000000"\<close>:
  \<open>Pack\<close> fails, so the message does not survive \<open>Pack\<close> followed by \<open>Unpack\<close>.
\<close>

theorem Pack_field_3_not_implemented:
  "Pack (Set (New (ascii ''0200'')) 3 (ascii ''000000'')) = Inl (Error (NotImplemented 3))"
  by (simp add: Pack_def New_def Set_def ascii_def and_then_def set_bit_of_def PutUint64_def
      pack_field_def upto_rec_numeral)

section \<open>A length prefix with a sign\<close>

text \<open>
  C10. A frame of 15 bytes after the length indicator: the type indicator \<^verbatim>\<open>"0800"\<close>, a
  primary bitmap with bit 48 alone, and the three bytes \<^verbatim>\<open>"-01"\<close> where the length
  prefix of field 48 stands. \<^verbatim>\<open>strconv.Atoi\<close> accepts the prefix as \<open>-1\<close>, the check
  against the length of the buffer passes, and the slice expression that follows has its
  upper bound below its lower bound: \<open>Unpack\<close> panics and returns nothing.
\<close>

theorem Unpack_negative_length_panics:
  "Unpack ([0x00, 0x0F] @ ascii ''0800'' @ [0, 0, 0, 0, 0, 1, 0, 0] @ ascii ''-01'') = Inl Panic"
  by code_simp

text \<open>
  The panic does not depend on that frame: wherever \<open>unpackLLVAR\<close> finds a minus sign
  followed by a digit other than zero, it panics.
\<close>

lemma unpackLLVAR_negative_panics:
  assumes "0 \<le> off" and "off + 2 \<le> int (length b)"
    and "b ! nat off = 0x2D" and "b ! nat (off + 1) = 48 + of_nat d" and "0 < d" and "d < 10"
  shows "unpackLLVAR b off = Inl Panic"
proof -
  have n1: "nat (off + 1) = Suc (nat off)" using assms(1) by simp
  have len: "Suc (nat off) < length b" using assms(1,2) by linarith
  then have "drop (nat off) b = b ! nat off # b ! Suc (nat off) # drop (Suc (Suc (nat off))) b"
    by (simp add: Cons_nth_drop_Suc)
  then have "take 2 (drop (nat off) b) = [0x2D, 48 + of_nat d]"
    using assms(3,4) n1 by (simp add: numeral_2_eq_2)
  then have s: "slice_expr b off (off + 2) = Inr [0x2D, 48 + of_nat d]"
    using assms(1,2) by (simp add: slice_expr_def)
  have a: "Atoi [0x2D, 48 + of_nat d] = Some (- int d)"
    using digit_byte [OF assms(6)] by (simp add: Atoi_def)
  have g1: "\<not> off + 2 > int (length b)" using assms(2) by simp
  have g2: "\<not> off + 2 + (- int d) > int (length b)" using assms(2) by simp
  have p: "slice_expr b (off + 2) (off + 2 + (- int d)) = Inl Panic"
    using assms(5) by (simp add: slice_expr_def)
  show ?thesis
    unfolding unpackLLVAR_def
    by (simp only: g1 if_False s and_then_def sum.case a option.case Let_def g2 p)
qed

section \<open>The sleeps of the reconnect loop\<close>

text \<open>
  C5. With the base backoff of 2 seconds that \<^verbatim>\<open>main\<close> configures and five dials that
  fail one after the other, the loop sleeps 2, 4, 8, 16 and then 32 seconds: the fifth
  sleep is longer than the cap of 30 seconds.
\<close>

theorem loop_sleeps_past_cap:
  "sleeps (loop (2 * Second) [False, False, False, False, False]) =
     [2 * Second, 4 * Second, 8 * Second, 16 * Second, 32 * Second] \<and>
   30 * Second < 32 * Second"
  by (simp add: loop_def base_backoff_def Second_def)

text \<open>
  The rest of the behaviour of the loop: the first sleep is the base value, the first
  sleep after a connection is the base value again, and with a base below 60 seconds no
  sleep reaches 60 seconds.
\<close>

lemma loop_first_sleep:
  "sleeps (loop RetryBacko (False # dials)) =
     base_backoff RetryBacko #
     sleeps (loop_from RetryBacko
       (if base_backoff RetryBacko < 30 * Second then base_backoff RetryBacko * 2
        else base_backoff RetryBacko) dials)"
  by (simp add: loop_def)

lemma loop_sleep_after_connect:
  "sleeps (loop_from RetryBacko backoff (True # False # dials)) =
     base_backoff RetryBacko #
     sleeps (loop_from RetryBacko
       (if base_backoff RetryBacko < 30 * Second then base_backoff RetryBacko * 2
        else base_backoff RetryBacko) dials)"
  by simp

lemma loop_from_sleeps_bound:
  "backoff < 60 * Second \<Longrightarrow> base_backoff RetryBacko < 60 * Second \<Longrightarrow>
     d \<in> set (sleeps (loop_from RetryBacko backoff dials)) \<Longrightarrow> d < 60 * Second"
proof (induction dials arbitrary: backoff)
  case Nil
  then show ?case by simp
next
  case (Cons c dials)
  show ?case
  proof (cases c)
    case True
    with Cons.prems(3) have "d \<in> set (sleeps (loop_from RetryBacko (base_backoff RetryBacko) dials))"
      by simp
    from Cons.IH [OF Cons.prems(2) Cons.prems(2) this] show ?thesis .
  next
    case False
    let ?next = "if backoff < 30 * Second then backoff * 2 else backoff"
    from False Cons.prems(3) have "d = backoff \<or> d \<in> set (sleeps (loop_from RetryBacko ?next dials))"
      by simp
    moreover have "?next < 60 * Second" using Cons.prems(1) by (simp add: Second_def)
    ultimately show ?thesis using Cons.IH [OF _ Cons.prems(2)] Cons.prems(1) by blast
  qed
qed

section \<open>Unpack after Pack\<close>

text \<open>
  Whenever \<open>Pack\<close> succeeds, \<open>Unpack\<close> accepts its output and returns the type
  indicator and the field map of the message that was packed.
\<close>

lemma Unpack_Pack:
  assumes "Pack m = Inr b"
  shows "\<exists>m'. Unpack b = Inr m' \<and> MTI m' = MTI m \<and> map_of (Fields m') = map_of (Fields m)"
proof -
  from assms obtain pr0 se pr sec t where
    mti: "length (MTI m) = 4"
    and bm: "build_bitmaps (map fst (Fields m)) (0, 0) = Inr (pr0, se)"
    and pr: "pr = (if se \<noteq> 0 then pr0 OR push_bit 63 1 else pr0)"
    and sec: "sec = (if se \<noteq> 0 then PutUint64 se else [])"
    and pf': "\<forall>body. pack_fields (map_of (Fields m)) [2..128] body = Inr (body @ t)"
    and b: "b = PutUint16 (of_nat (length (MTI m @ PutUint64 pr @ sec @ t))) @ MTI m @ PutUint64 pr @ sec @ t"
    by (rule Pack_layout)
  from pf' have pf: "pack_fields (map_of (Fields m)) [2..128] body = Inr (body @ t)" for body
    by blast
  let ?hdr = "MTI m @ PutUint64 pr @ sec"
  let ?msg = "?hdr @ t"
  let ?ks = "map fst (Fields m)"
  note bits = Pack_bitmaps [OF bm, folded pr]
  have keys: "\<forall>k \<in> set ?ks. 2 \<le> k \<and> k \<le> 128" by (rule bits(1))
  have b63: "bit pr 63 \<longleftrightarrow> se \<noteq> 0" by (rule bits(3))
  have dom: "map_of (Fields m) f \<noteq> None \<longleftrightarrow> f \<in> set ?ks" for f
    by (simp add: map_of_eq_None_iff)
  have pres: "\<forall>f \<in> set [2..128]. present pr se f \<longleftrightarrow> map_of (Fields m) f \<noteq> None"
    using bits(4) by (simp only: dom) simp
  have hlen: "length ?hdr = 12 + length sec" using mti by simp
  have "length ?msg \<le> length ?hdr + 1122"
    using pack_fields_all_length [OF pf [of ?hdr]] by simp
  moreover have "length sec \<le> 8" by (simp add: sec)
  ultimately have len: "length ?msg < 65536" using hlen by simp
  have win: "unpack_window b = Inr ?msg"
    using unpack_window_framed [OF len, of "[]"] b by simp
  have hd: "unpack_bitmaps ?msg = Inr (MTI m, pr, se, 12 + int (length sec))"
    using unpack_bitmaps_packed [OF mti sec b63, of ?msg t] by simp
  from unpack_pack_fields [OF pf [of ?hdr] pres] obtain t' where
    t': "?hdr @ t = ?hdr @ t'"
    and walk: "\<And>suf acc. \<exists>acc'.
       unpack_fields (?hdr @ t' @ suf) pr se [2..128] (acc, int (length ?hdr)) =
         Inr (acc', int (length ?hdr) + int (length t')) \<and>
       map_of acc' =
         (\<lambda>k. if k \<in> set [2..128] \<and> map_of (Fields m) k \<noteq> None then map_of (Fields m) k
              else map_of acc k)"
    by blast
  from t' have tt: "t' = t" by simp
  from walk [of "[]" "[]"] obtain acc' where
    w0: "unpack_fields (?hdr @ t' @ []) pr se [2..128] ([], int (length ?hdr)) =
          Inr (acc', int (length ?hdr) + int (length t'))"
    and mp: "map_of acc' =
         (\<lambda>k. if k \<in> set [2..128] \<and> map_of (Fields m) k \<noteq> None then map_of (Fields m) k
              else map_of [] k)"
    by blast
  from w0 have w: "unpack_fields ?msg pr se [2..128] ([], 12 + int (length sec)) =
          Inr (acc', int (length ?msg))"
    using mti by (simp add: tt)
  have "map_of acc' = map_of (Fields m)"
  proof
    fix k
    show "map_of acc' k = map_of (Fields m) k"
      using keys dom [of k] by (cases "map_of (Fields m) k") (auto simp add: mp)
  qed
  moreover have "Unpack b = Inr \<lparr>MTI = MTI m, Fields = acc'\<rparr>"
    using win hd w by (simp add: Unpack_def unpack_message_def and_then_def New_def)
  ultimately show ?thesis by simp
qed

section \<open>The length indicator\<close>

text \<open>
  C6. For every message on which \<open>Pack\<close> succeeds, the first two bytes of the output,
  read as a big-endian unsigned 16-bit integer, are the length of the output minus 2.
\<close>

theorem Pack_length_prefix:
  assumes "Pack m = Inr b"
  shows "2 \<le> length b \<and> uint (Uint16 (take 2 b)) = int (length b) - 2"
proof -
  from assms obtain pr0 se pr sec t where
    mti: "length (MTI m) = 4"
    and sec: "sec = (if se \<noteq> 0 then PutUint64 se else [])"
    and pf: "\<forall>body. pack_fields (map_of (Fields m)) [2..128] body = Inr (body @ t)"
    and b: "b = PutUint16 (of_nat (length (MTI m @ PutUint64 pr @ sec @ t))) @ MTI m @ PutUint64 pr @ sec @ t"
    by (rule Pack_layout)
  let ?msg = "MTI m @ PutUint64 pr @ sec @ t"
  from pf have "pack_fields (map_of (Fields m)) [2..128] [] = Inr ([] @ t)" by blast
  from pack_fields_all_length [OF this] have "length t \<le> 1122" by simp
  moreover have "length sec \<le> 8" by (simp add: sec)
  ultimately have len: "length ?msg < 65536" using mti by simp
  have "take 2 b = PutUint16 (of_nat (length ?msg))" by (simp add: b)
  then have "uint (Uint16 (take 2 b)) = int (length ?msg)"
    using len by (simp only: Uint16_PutUint16 uint_length16)
  moreover have "length b = 2 + length ?msg" by (simp add: b)
  ultimately show ?thesis by simp
qed

theorem Pack_length_prefix_witness:
  "Pack (Set (Set (Set (New (ascii ''0800'')) 7 (ascii ''0102030405'')) 11 (ascii ''123456''))
           70 (ascii ''301'')) =
     Inr ([0x00, 0x27] @ ascii ''0800'' @ [0x82, 0x20, 0, 0, 0, 0, 0, 0] @
          [0x04, 0, 0, 0, 0, 0, 0, 0] @ ascii ''0102030405'' @ ascii ''123456'' @ ascii ''301'') \<and>
   uint (Uint16 (take 2 ([0x00, 0x27] @ ascii ''0800'' @ [0x82, 0x20, 0, 0, 0, 0, 0, 0] @
          [0x04, 0, 0, 0, 0, 0, 0, 0] @ ascii ''0102030405'' @ ascii ''123456'' @ ascii ''301''))) = 39"
proof -
  have p: "Pack (Set (Set (Set (New (ascii ''0800'')) 7 (ascii ''0102030405'')) 11 (ascii ''123456''))
           70 (ascii ''301'')) =
     Inr ([0x00, 0x27] @ ascii ''0800'' @ [0x82, 0x20, 0, 0, 0, 0, 0, 0] @
          [0x04, 0, 0, 0, 0, 0, 0, 0] @ ascii ''0102030405'' @ ascii ''123456'' @ ascii ''301'')"
    by code_simp
  from Pack_length_prefix [OF p] p show ?thesis
    by (simp add: ascii_def)
qed

section \<open>The secondary bitmap\<close>

lemma PutUint64_top_bit: "bit (PutUint64 w ! 0) 7 \<longleftrightarrow> bit w 63"
  by (simp add: PutUint64_def bit_simps)

text \<open>
  C7. For every message on which \<open>Pack\<close> succeeds: bit 1 of the primary bitmap (bit 63
  of the word) is set exactly when some field above 64 is present; in that case the
  output is the length indicator, the type indicator, the primary bitmap, a non-zero
  secondary bitmap whose bits are the fields 65 to 128 that are present, and the fields;
  otherwise the fields follow the primary bitmap at once and no secondary bitmap is
  written.
\<close>

theorem Pack_secondary_bitmap:
  assumes "Pack m = Inr b"
  defines "high \<equiv> (\<exists>f \<in> set (map fst (Fields m)). 64 < f)"
  shows "(bit (b ! 6) 7 \<longleftrightarrow> high) \<and>
         (\<exists>primary secondary fields.
           pack_fields (map_of (Fields m)) [2..128] [] = Inr fields \<and>
           (bit primary 63 \<longleftrightarrow> high) \<and>
           (secondary \<noteq> 0 \<longleftrightarrow> high) \<and>
           (\<forall>f. 64 < f \<and> f \<le> 128 \<longrightarrow>
              (bit secondary (nat (128 - f)) \<longleftrightarrow> f \<in> set (map fst (Fields m)))) \<and>
           drop 2 b =
             MTI m @ PutUint64 primary @ (if high then PutUint64 secondary else []) @ fields)"
proof -
  from assms(1) obtain pr0 se pr sec t where
    mti: "length (MTI m) = 4"
    and bm: "build_bitmaps (map fst (Fields m)) (0, 0) = Inr (pr0, se)"
    and pr: "pr = (if se \<noteq> 0 then pr0 OR push_bit 63 1 else pr0)"
    and sec: "sec = (if se \<noteq> 0 then PutUint64 se else [])"
    and pf: "\<forall>body. pack_fields (map_of (Fields m)) [2..128] body = Inr (body @ t)"
    and b: "b = PutUint16 (of_nat (length (MTI m @ PutUint64 pr @ sec @ t))) @ MTI m @ PutUint64 pr @ sec @ t"
    by (rule Pack_layout)
  note bits = Pack_bitmaps [OF bm, folded pr]
  have se: "se \<noteq> 0 \<longleftrightarrow> high" unfolding high_def by (rule bits(2))
  have b63: "bit pr 63 \<longleftrightarrow> high" using bits(3) se by simp
  have sbits: "\<forall>f. 64 < f \<and> f \<le> 128 \<longrightarrow>
      (bit se (nat (128 - f)) \<longleftrightarrow> f \<in> set (map fst (Fields m)))"
  proof (intro allI impI)
    fix f :: int assume f: "64 < f \<and> f \<le> 128"
    then have "present pr se f \<longleftrightarrow> f \<in> set (map fst (Fields m))"
      using bits(4) by simp
    moreover have "present pr se f \<longleftrightarrow> bit se (nat (128 - f))"
      using f by (simp add: present_bit)
    ultimately show "bit se (nat (128 - f)) \<longleftrightarrow> f \<in> set (map fst (Fields m))" by simp
  qed
  from pf have t: "pack_fields (map_of (Fields m)) [2..128] [] = Inr t"
    using spec [OF pf, of "[]"] by simp
  have "b ! 6 = PutUint64 pr ! 0"
    using mti by (simp add: b nth_append)
  then have byte: "bit (b ! 6) 7 \<longleftrightarrow> high"
    using b63 by (simp only: PutUint64_top_bit)
  have "drop 2 b = MTI m @ PutUint64 pr @ (if high then PutUint64 se else []) @ t"
    using se by (simp add: b sec)
  with t b63 se sbits byte show ?thesis by blast
qed

theorem Pack_secondary_bitmap_witness:
  "Pack (Set (Set (New (ascii ''0810'')) 11 (ascii ''000007'')) 70 (ascii ''301'')) =
     Inr ([0x00, 0x1D] @ ascii ''0810'' @ [0x80, 0x20, 0, 0, 0, 0, 0, 0] @
          [0x04, 0, 0, 0, 0, 0, 0, 0] @ ascii ''000007'' @ ascii ''301'') \<and>
   bit (([0x00, 0x1D] @ ascii ''0810'' @ [0x80, 0x20, 0, 0, 0, 0, 0, 0] @
          [0x04, 0, 0, 0, 0, 0, 0, 0] @ ascii ''000007'' @ ascii ''301'') ! 6) 7 \<and>
   (\<exists>primary secondary fields.
      pack_fields (map_of [(11, ascii ''000007''), (70, ascii ''301'')]) [2..128] [] = Inr fields \<and>
      bit primary 63 \<and> secondary \<noteq> 0 \<and>
      drop 2 ([0x00, 0x1D] @ ascii ''0810'' @ [0x80, 0x20, 0, 0, 0, 0, 0, 0] @
          [0x04, 0, 0, 0, 0, 0, 0, 0] @ ascii ''000007'' @ ascii ''301'') =
        ascii ''0810'' @ PutUint64 primary @ PutUint64 secondary @ fields)"
proof -
  let ?m = "Set (Set (New (ascii ''0810'')) 11 (ascii ''000007'')) 70 (ascii ''301'')"
  let ?b = "[0x00, 0x1D] @ ascii ''0810'' @ [0x80, 0x20, 0, 0, 0, 0, 0, 0] @
          [0x04, 0, 0, 0, 0, 0, 0, 0] @ ascii ''000007'' @ ascii ''301''"
  have p: "Pack ?m = Inr ?b"
    by code_simp
  have f: "Fields ?m = [(11, ascii ''000007''), (70, ascii ''301'')]" and t: "MTI ?m = ascii ''0810''"
    by (simp_all add: Set_def New_def)
  have high: "\<exists>f \<in> set (map fst (Fields ?m)). 64 < f"
    by (simp add: f)
  note r = Pack_secondary_bitmap [OF p]
  from r [THEN conjunct1] high have byte: "bit (?b ! 6) 7"
    by (rule iffD2)
  from r [THEN conjunct2] obtain primary secondary fields where
    "pack_fields (map_of (Fields ?m)) [2..128] [] = Inr fields"
    "bit primary 63" "secondary \<noteq> 0"
    "drop 2 ?b = MTI ?m @ PutUint64 primary @ PutUint64 secondary @ fields"
    using high by (auto simp only: if_True simp_thms)
  then show ?thesis
    unfolding f t using p byte by blast
qed

section \<open>Pack after Unpack\<close>

lemma Pack_Unpack_of_packed:
  assumes "Pack m = Inr b"
  shows "\<exists>m'. Unpack b = Inr m' \<and> Pack m' = Inr b"
proof -
  from Unpack_Pack [OF assms] obtain m' where
    "Unpack b = Inr m'" "MTI m' = MTI m" "map_of (Fields m') = map_of (Fields m)"
    by blast
  with Pack_same_map [OF assms, of m'] show ?thesis by blast
qed

text \<open>
  Every message that \<open>Unpack\<close> returns can be packed: the fixed fields have the length
  that was read, and a length prefix of 2 or 3 bytes cannot announce more than 99 or 999
  bytes.
\<close>

lemma atoi_digits_bound:
  "atoi_digits s n = Some r \<Longrightarrow> r < (n + 1) * 10 ^ length s"
proof (induction s arbitrary: n)
  case Nil
  then show ?case by simp
next
  case (Cons ch s)
  from Cons.prems have d: "\<not> ch - 0x30 > 9"
    and rest: "atoi_digits s (n * 10 + unat (ch - 0x30)) = Some r"
    by (auto split: if_splits)
  from d have "unat (ch - 0x30) \<le> 9"
    by (simp add: word_less_nat_alt)
  then have "n * 10 + unat (ch - 0x30) + 1 \<le> (n + 1) * 10" by simp
  then have le: "(n * 10 + unat (ch - 0x30) + 1) * 10 ^ length s \<le> (n + 1) * 10 * 10 ^ length s"
    by (rule mult_le_mono1)
  from Cons.IH [OF rest] have "r < (n * 10 + unat (ch - 0x30) + 1) * 10 ^ length s" .
  also note le
  also have "(n + 1) * 10 * 10 ^ length s = (n + 1) * 10 ^ length (ch # s)"
    by (simp add: algebra_simps)
  finally show ?case .
qed

lemma Atoi_bound:
  assumes "Atoi s = Some l"
  shows "l < 10 ^ length s"
proof (cases s)
  case Nil
  with assms show ?thesis by (simp add: Atoi_def)
next
  case (Cons c cs)
  show ?thesis
  proof (cases "c = 0x2D \<or> c = 0x2B")
    case True
    with assms Cons obtain r where r: "atoi_digits cs 0 = Some r"
      and l: "l = (if c = 0x2D then - int r else int r)"
      by (auto simp add: Atoi_def split: if_splits)
    from atoi_digits_bound [OF r] have "r < 10 ^ length cs" by simp
    then have "int r < int (10 ^ length cs)" by (simp only: of_nat_less_iff)
    then have "int r < 10 ^ length cs" by simp
    moreover have "(10::int) ^ length cs \<le> 10 ^ length s"
      using Cons by simp
    ultimately have "int r < 10 ^ length s" by (rule less_le_trans)
    moreover have "l \<le> int r" using l by (cases "c = 0x2D") simp_all
    ultimately show ?thesis by (rule le_less_trans [rotated])
  next
    case False
    with assms Cons obtain r where r: "atoi_digits s 0 = Some r" and l: "l = int r"
      by (auto simp add: Atoi_def)
    from atoi_digits_bound [OF r] have "r < 10 ^ length s" by simp
    then have "int r < int (10 ^ length s)" by (simp only: of_nat_less_iff)
    then have "int r < 10 ^ length s" by simp
    with l show ?thesis by simp
  qed
qed

lemma slice_expr_length:
  "slice_expr p lo hi = Inr v \<Longrightarrow> int (length v) = hi - lo"
  by (auto simp add: slice_expr_def split: if_splits)

lemma unpackLLVAR_length:
  assumes "unpackLLVAR p off = Inr (v, off')"
  shows "length v \<le> 99"
proof -
  from assms obtain s l where s: "slice_expr p off (off + 2) = Inr s"
    and a: "Atoi s = Some l" and v: "slice_expr p (off + 2) (off + 2 + l) = Inr v"
    by (auto simp add: unpackLLVAR_def and_then_def Let_def
        split: if_splits sum.splits option.splits)
  from slice_expr_length [OF s] have "length s = 2" by simp
  with Atoi_bound [OF a] have "l < 100" by simp
  with slice_expr_length [OF v] show ?thesis by simp
qed

lemma unpackLLLVAR_length:
  assumes "unpackLLLVAR p off = Inr (v, off')"
  shows "length v \<le> 999"
proof -
  from assms obtain s l where s: "slice_expr p off (off + 3) = Inr s"
    and a: "Atoi s = Some l" and v: "slice_expr p (off + 3) (off + 3 + l) = Inr v"
    by (auto simp add: unpackLLLVAR_def and_then_def Let_def
        split: if_splits sum.splits option.splits)
  from slice_expr_length [OF s] have "length s = 3" by simp
  with Atoi_bound [OF a] have "l < 1000" by simp
  with slice_expr_length [OF v] show ?thesis by simp
qed

lemma unpack_field_packable:
  assumes "unpack_field p f (flds, off) = Inr (flds', off')"
  shows "\<exists>v. flds' = AList.update f v flds \<and> is_ok (pack_field f v [])"
proof -
  consider "f = 7" | "f = 11" | "f = 48" | "f = 70" | "f = 102"
    using assms by (auto simp add: unpack_field_def split: if_splits)
  then show ?thesis
  proof cases
    case 1
    with assms obtain v where v: "slice_expr p off (off + 10) = Inr v"
      and f: "flds' = AList.update 7 v flds"
      by (auto simp add: unpack_field_def and_then_def split: if_splits sum.splits)
    from slice_expr_length [OF v] have "length v = 10" by simp
    with 1 f show ?thesis by (intro exI [of _ v]) (simp add: pack_field_ok_iff)
  next
    case 2
    with assms obtain v where v: "slice_expr p off (off + 6) = Inr v"
      and f: "flds' = AList.update 11 v flds"
      by (auto simp add: unpack_field_def and_then_def split: if_splits sum.splits)
    from slice_expr_length [OF v] have "length v = 6" by simp
    with 2 f show ?thesis by (intro exI [of _ v]) (simp add: pack_field_ok_iff)
  next
    case 3
    with assms obtain v where "unpackLLLVAR p off = Inr (v, off')" "flds' = AList.update 48 v flds"
      by (auto simp add: unpack_field_def split: if_splits sum.splits abort.splits)
    with 3 unpackLLLVAR_length [of p off v off'] show ?thesis
      by (intro exI [of _ v]) (simp add: pack_field_ok_iff)
  next
    case 4
    with assms obtain v where v: "slice_expr p off (off + 3) = Inr v"
      and f: "flds' = AList.update 70 v flds"
      by (auto simp add: unpack_field_def and_then_def split: if_splits sum.splits)
    from slice_expr_length [OF v] have "length v = 3" by simp
    with 4 f show ?thesis by (intro exI [of _ v]) (simp add: pack_field_ok_iff)
  next
    case 5
    with assms obtain v where "unpackLLVAR p off = Inr (v, off')" "flds' = AList.update 102 v flds"
      by (auto simp add: unpack_field_def split: if_splits sum.splits abort.splits)
    with 5 unpackLLVAR_length [of p off v off'] show ?thesis
      by (intro exI [of _ v]) (simp add: pack_field_ok_iff)
  qed
qed

lemma unpack_fields_packable:
  "unpack_fields p pr se fs (flds, off) = Inr (flds', off') \<Longrightarrow>
     \<forall>f v. map_of flds f = Some v \<longrightarrow> is_ok (pack_field f v []) \<Longrightarrow>
     \<forall>f v. map_of flds' f = Some v \<longrightarrow> is_ok (pack_field f v [])"
proof (induction fs arbitrary: flds off)
  case Nil
  then show ?case by simp
next
  case (Cons f fs)
  show ?case
  proof (cases "present pr se f")
    case False
    with Cons.prems Cons.IH [of flds off] show ?thesis by simp
  next
    case True
    with Cons.prems(1) obtain flds1 off1 where s: "unpack_field p f (flds, off) = Inr (flds1, off1)"
      and r: "unpack_fields p pr se fs (flds1, off1) = Inr (flds', off')"
      by (auto simp add: and_then_def split: sum.splits)
    from unpack_field_packable [OF s] obtain v where
      "flds1 = AList.update f v flds" "is_ok (pack_field f v [])" by blast
    with Cons.prems(2) have "\<forall>g w. map_of flds1 g = Some w \<longrightarrow> is_ok (pack_field g w [])"
      by (simp add: update_conv')
    from Cons.IH [OF r this] show ?thesis .
  qed
qed

lemma Unpack_packable:
  assumes "Unpack b = Inr m"
  shows "is_ok (Pack m)"
proof -
  from assms obtain p where "unpack_message p = Inr m"
    by (auto simp add: Unpack_def and_then_def split: sum.splits)
  then obtain mti pr se off0 flds off where
    h: "unpack_bitmaps p = Inr (mti, pr, se, off0)"
    and w: "unpack_fields p pr se [2..128] ([], off0) = Inr (flds, off)"
    and m: "m = \<lparr>MTI = mti, Fields = flds\<rparr>"
    by (auto simp add: unpack_message_def and_then_def New_def split: sum.splits if_splits)
  from h obtain b8 where "slice_expr p 0 4 = Inr mti"
    by (auto simp add: unpack_bitmaps_def and_then_def Let_def split: if_splits sum.splits)
  from slice_expr_length [OF this] have "length mti = 4" by simp
  moreover from unpack_fields_packable [OF w]
  have "\<forall>f v. map_of flds f = Some v \<longrightarrow> is_ok (pack_field f v [])" by simp
  ultimately show ?thesis
    unfolding Pack_succeeds_iff m by (simp add: pack_field_ok_iff)
qed

text \<open>
  \<open>Pack\<close> after \<open>Unpack\<close> always succeeds, and its output unpacks to the same type
  indicator and the same fields; that output is \<open>b\<close> again exactly when \<open>b\<close> is an
  output of \<open>Pack\<close>.
\<close>

lemma Pack_Unpack_reencodes:
  assumes "Unpack b = Inr m"
  shows "\<exists>b'. Pack m = Inr b' \<and>
           (\<exists>m'. Unpack b' = Inr m' \<and> MTI m' = MTI m \<and>
              map_of (Fields m') = map_of (Fields m)) \<and>
           (b' = b \<longleftrightarrow> (\<exists>m0. Pack m0 = Inr b))"
proof -
  from Unpack_packable [OF assms] obtain b' where p: "Pack m = Inr b'"
    by (cases "Pack m") simp_all
  have "b' = b \<longleftrightarrow> (\<exists>m0. Pack m0 = Inr b)"
  proof
    assume "b' = b"
    with p show "\<exists>m0. Pack m0 = Inr b" by blast
  next
    assume "\<exists>m0. Pack m0 = Inr b"
    then obtain m0 where "Pack m0 = Inr b" by blast
    from Pack_Unpack_of_packed [OF this] assms have "Pack m = Inr b" by auto
    with p show "b' = b" by simp
  qed
  with p Unpack_Pack [OF p] show ?thesis by blast
qed

subsection \<open>Bytes back from words\<close>

lemma PutUint16_Uint16: "PutUint16 (Uint16 [x, y]) = [x, y]"
  unfolding Uint16_def PutUint16_def
  apply simp
  apply (intro conjI bit_word_eqI)
   apply (auto simp add: bit_simps dest: bit_imp_le_length)
  done

lemma PutUint64_Uint64:
  "PutUint64 (Uint64 [b0, b1, b2, b3, b4, b5, b6, b7]) = [b0, b1, b2, b3, b4, b5, b6, b7]"
  unfolding Uint64_def PutUint64_def
  apply simp
  apply (intro conjI bit_word_eqI)
         apply (auto simp add: bit_simps dest: bit_imp_le_length)
  done

lemma list_of_length_2:
  assumes "length (bs :: 'a list) = 2"
  obtains x y where "bs = [x, y]"
proof -
  from assms have "bs = [bs ! 0, bs ! 1]"
    by (auto simp add: list_eq_iff_nth_eq less_Suc_eq numeral_2_eq_2)
  then show thesis by (rule that)
qed

lemma list_of_length_8:
  assumes "length (bs :: 'a list) = 8"
  obtains b0 b1 b2 b3 b4 b5 b6 b7 where "bs = [b0, b1, b2, b3, b4, b5, b6, b7]"
proof -
  have eq: "bs ! i = [bs ! 0, bs ! 1, bs ! 2, bs ! 3, bs ! 4, bs ! 5, bs ! 6, bs ! 7] ! i"
    if "i < 8" for i
  proof -
    from that have "i = 0 \<or> i = 1 \<or> i = 2 \<or> i = 3 \<or> i = 4 \<or> i = 5 \<or> i = 6 \<or> i = 7"
      by arith
    then show ?thesis by (elim disjE) simp_all
  qed
  have "bs = [bs ! 0, bs ! 1, bs ! 2, bs ! 3, bs ! 4, bs ! 5, bs ! 6, bs ! 7]"
  proof (rule nth_equalityI)
    show "length bs = length [bs ! 0, bs ! 1, bs ! 2, bs ! 3, bs ! 4, bs ! 5, bs ! 6, bs ! 7]"
      using assms by simp
  next
    fix i
    assume "i < length bs"
    with assms have "i < 8" by simp
    then show "bs ! i = [bs ! 0, bs ! 1, bs ! 2, bs ! 3, bs ! 4, bs ! 5, bs ! 6, bs ! 7] ! i"
      by (rule eq)
  qed
  then show thesis by (rule that)
qed

lemma PutUint16_Uint16_length: "length bs = 2 \<Longrightarrow> PutUint16 (Uint16 bs) = bs"
  by (erule list_of_length_2) (simp only: PutUint16_Uint16)

lemma PutUint64_Uint64_length: "length bs = 8 \<Longrightarrow> PutUint64 (Uint64 bs) = bs"
  by (erule list_of_length_8) (simp only: PutUint64_Uint64)

lemma Uint64_top_bit: "length bs = 8 \<Longrightarrow> bit (Uint64 bs) 63 \<longleftrightarrow> bit (bs ! 0) 7"
  using PutUint64_top_bit [of "Uint64 bs"] by (simp add: PutUint64_Uint64_length)

subsection \<open>A length prefix of decimal digits\<close>

lemma digit_byte_ex:
  assumes "0x30 \<le> (c :: byte)" and "c \<le> 0x39"
  obtains d where "d < 10" and "c = 48 + of_nat d"
proof -
  from assms have u: "48 \<le> unat c" "unat c \<le> 57"
    by (simp_all add: word_le_nat_alt)
  have "c = of_nat (unat c)" by simp
  also have "unat c = 48 + (unat c - 48)" using u by simp
  finally have "c = 48 + of_nat (unat c - 48)" by simp
  moreover have "unat c - 48 < 10" using u by simp
  ultimately show thesis using that by blast
qed

lemma Atoi_digits_two:
  assumes "decimal_digits s" and "length s = 2" and "Atoi s = Some l"
  shows "0 \<le> l \<and> l \<le> 99 \<and> Sprintf_0d 2 (nat l) = s"
proof -
  from assms(2) obtain x y where s: "s = [x, y]"
    by (cases s; cases "tl s") auto
  from assms(1) s obtain a where a: "a < 10" "x = 48 + of_nat a"
    by (auto simp add: decimal_digits_def elim: digit_byte_ex)
  from assms(1) s obtain b where b: "b < 10" "y = 48 + of_nat b"
    by (auto simp add: decimal_digits_def elim: digit_byte_ex)
  from assms(3) Atoi_two_digits [OF a(1) b(1)] have l: "l = int (a * 10 + b)"
    by (simp add: s a b)
  have n: "a * 10 + b \<le> 99" using a b by simp
  have nl: "nat l = a * 10 + b" using l by simp
  have "(a * 10 + b) div 10 = a" "(a * 10 + b) mod 10 = b" using a b by simp_all
  then have "Sprintf_0d 2 (a * 10 + b) = s"
    using n by (simp only: Sprintf_02d s a b)
  with n l nl show ?thesis by simp
qed

lemma Atoi_digits_three:
  assumes "decimal_digits s" and "length s = 3" and "Atoi s = Some l"
  shows "0 \<le> l \<and> l \<le> 999 \<and> Sprintf_0d 3 (nat l) = s"
proof -
  from assms(2) obtain x y z where s: "s = [x, y, z]"
    by (cases s; cases "tl s"; cases "tl (tl s)") auto
  from assms(1) s obtain a where a: "a < 10" "x = 48 + of_nat a"
    by (auto simp add: decimal_digits_def elim: digit_byte_ex)
  from assms(1) s obtain b where b: "b < 10" "y = 48 + of_nat b"
    by (auto simp add: decimal_digits_def elim: digit_byte_ex)
  from assms(1) s obtain c where c: "c < 10" "z = 48 + of_nat c"
    by (auto simp add: decimal_digits_def elim: digit_byte_ex)
  let ?n = "(a * 10 + b) * 10 + c"
  from assms(3) Atoi_three_digits [OF a(1) b(1) c(1)] have l: "l = int ?n"
    by (simp add: s a b c)
  have n: "?n \<le> 999" using a b c by simp
  have d10: "?n div 10 = a * 10 + b" using c(1) by simp
  have "?n div 100 = ?n div (10 * 10)" by simp
  also have "\<dots> = ?n div 10 div 10" by (rule div_mult2_eq)
  also have "\<dots> = (a * 10 + b) div 10" by (simp only: d10)
  also have "\<dots> = a" using b(1) by simp
  finally have d100: "?n div 100 = a" .
  have "?n div 10 mod 10 = (a * 10 + b) mod 10" by (simp only: d10)
  then have m1: "?n div 10 mod 10 = b" using b(1) by simp
  have "?n mod 10 = c mod 10" by (rule mod_mult_self3)
  then have m0: "?n mod 10 = c" using c(1) by simp
  from d100 m1 m0
  have "Sprintf_0d 3 ?n = s"
    using n by (simp only: Sprintf_03d s a b c)
  moreover have "nat l = ?n" using l by simp
  ultimately show ?thesis using n l by simp
qed

subsection \<open>The decoding loop, packed again\<close>

lemma slice_expr_take:
  assumes "slice_expr p lo hi = Inr v"
  shows "take (nat hi) p = take (nat lo) p @ v" and "v = take (nat (hi - lo)) (drop (nat lo) p)"
proof -
  from assms have r: "0 \<le> lo" "lo \<le> hi" and v: "v = take (nat (hi - lo)) (drop (nat lo) p)"
    by (auto simp add: slice_expr_def split: if_splits)
  from r have "nat hi = nat lo + nat (hi - lo)" by simp
  then show "take (nat hi) p = take (nat lo) p @ v"
    by (simp only: v take_add)
  show "v = take (nat (hi - lo)) (drop (nat lo) p)" by (rule v)
qed

lemma pack_unpack_field:
  assumes u: "unpack_field p f (acc, off) = Inr (acc1, off1)"
    and d48: "f = 48 \<longrightarrow> decimal_digits (take 3 (drop (nat off) p))"
    and d102: "f = 102 \<longrightarrow> decimal_digits (take 2 (drop (nat off) p))"
  shows "\<exists>v. acc1 = AList.update f v acc \<and>
           pack_field f v (take (nat off) p) = Inr (take (nat off1) p)"
proof -
  consider "f = 7" | "f = 11" | "f = 48" | "f = 70" | "f = 102"
    using u by (auto simp add: unpack_field_def split: if_splits)
  then show ?thesis
  proof cases
    case 1
    with u obtain v where v: "slice_expr p off (off + 10) = Inr v"
      and a: "acc1 = AList.update 7 v acc" "off1 = off + 10"
      by (auto simp add: unpack_field_def and_then_def split: if_splits sum.splits)
    from slice_expr_length [OF v] have "length v = 10" by simp
    with 1 a slice_expr_take(1) [OF v] show ?thesis
      by (intro exI [of _ v]) (simp add: pack_field_def)
  next
    case 2
    with u obtain v where v: "slice_expr p off (off + 6) = Inr v"
      and a: "acc1 = AList.update 11 v acc" "off1 = off + 6"
      by (auto simp add: unpack_field_def and_then_def split: if_splits sum.splits)
    from slice_expr_length [OF v] have "length v = 6" by simp
    with 2 a slice_expr_take(1) [OF v] show ?thesis
      by (intro exI [of _ v]) (simp add: pack_field_def)
  next
    case 3
    with u obtain v where ul: "unpackLLLVAR p off = Inr (v, off1)"
      and a: "acc1 = AList.update 48 v acc"
      by (auto simp add: unpack_field_def split: if_splits sum.splits abort.splits)
    from ul obtain s l where s: "slice_expr p off (off + 3) = Inr s"
      and at: "Atoi s = Some l" and v: "slice_expr p (off + 3) (off + 3 + l) = Inr v"
      and o: "off1 = off + 3 + l"
      by (auto simp add: unpackLLLVAR_def and_then_def Let_def
          split: if_splits sum.splits option.splits)
    from slice_expr_length [OF s] have ls: "length s = 3" by simp
    from slice_expr_take(2) [OF s] 3 d48 have "decimal_digits s" by simp
    from Atoi_digits_three [OF this ls at] have l: "0 \<le> l" "l \<le> 999" "Sprintf_0d 3 (nat l) = s"
      by simp_all
    from slice_expr_length [OF v] l(1) have lv: "length v = nat l" by simp
    have "take (nat off1) p = take (nat off) p @ s @ v"
      using slice_expr_take(1) [OF s] slice_expr_take(1) [OF v] o by simp
    with 3 a l lv show ?thesis
      by (intro exI [of _ v]) (simp add: pack_field_def packLLLVAR_def)
  next
    case 4
    with u obtain v where v: "slice_expr p off (off + 3) = Inr v"
      and a: "acc1 = AList.update 70 v acc" "off1 = off + 3"
      by (auto simp add: unpack_field_def and_then_def split: if_splits sum.splits)
    from slice_expr_length [OF v] have "length v = 3" by simp
    with 4 a slice_expr_take(1) [OF v] show ?thesis
      by (intro exI [of _ v]) (simp add: pack_field_def)
  next
    case 5
    with u obtain v where ul: "unpackLLVAR p off = Inr (v, off1)"
      and a: "acc1 = AList.update 102 v acc"
      by (auto simp add: unpack_field_def split: if_splits sum.splits abort.splits)
    from ul obtain s l where s: "slice_expr p off (off + 2) = Inr s"
      and at: "Atoi s = Some l" and v: "slice_expr p (off + 2) (off + 2 + l) = Inr v"
      and o: "off1 = off + 2 + l"
      by (auto simp add: unpackLLVAR_def and_then_def Let_def
          split: if_splits sum.splits option.splits)
    from slice_expr_length [OF s] have ls: "length s = 2" by simp
    from slice_expr_take(2) [OF s] 5 d102 have "decimal_digits s" by simp
    from Atoi_digits_two [OF this ls at] have l: "0 \<le> l" "l \<le> 99" "Sprintf_0d 2 (nat l) = s"
      by simp_all
    from slice_expr_length [OF v] l(1) have lv: "length v = nat l" by simp
    have "take (nat off1) p = take (nat off) p @ s @ v"
      using slice_expr_take(1) [OF s] slice_expr_take(1) [OF v] o by simp
    with 5 a l lv show ?thesis
      by (intro exI [of _ v]) (simp add: pack_field_def packLLVAR_def)
  qed
qed


lemma unpack_field_update:
  "unpack_field p f (acc, off) = Inr (acc1, off1) \<Longrightarrow> \<exists>v. acc1 = AList.update f v acc"
  by (auto simp add: unpack_field_def and_then_def
      split: if_splits sum.splits abort.splits prod.splits)

lemma unpack_fields_keys:
  "unpack_fields p pr se fs (acc, off) = Inr (acc', off') \<Longrightarrow>
     (\<forall>k. map_of acc' k \<noteq> None \<longleftrightarrow> map_of acc k \<noteq> None \<or> (k \<in> set fs \<and> present pr se k)) \<and>
     (\<forall>k. \<not> (k \<in> set fs \<and> present pr se k) \<longrightarrow> map_of acc' k = map_of acc k)"
proof (induction fs arbitrary: acc off)
  case Nil
  then show ?case by simp
next
  case (Cons f fs)
  show ?case
  proof (cases "present pr se f")
    case False
    with Cons.prems have "unpack_fields p pr se fs (acc, off) = Inr (acc', off')" by simp
    from Cons.IH [OF this] False show ?thesis by auto
  next
    case True
    with Cons.prems obtain acc1 off1 where u: "unpack_field p f (acc, off) = Inr (acc1, off1)"
      and w: "unpack_fields p pr se fs (acc1, off1) = Inr (acc', off')"
      by (cases "unpack_field p f (acc, off)") (auto simp add: and_then_def)
    from unpack_field_update [OF u] obtain v where a: "acc1 = AList.update f v acc" ..
    from Cons.IH [OF w] True show ?thesis
      by (auto simp add: a update_conv')
  qed
qed

lemma pack_unpack_fields:
  "unpack_fields p pr se fs (acc, off) = Inr (acc', off') \<Longrightarrow> distinct fs \<Longrightarrow>
     \<forall>f \<in> set fs. map_of acc f = None \<Longrightarrow> digit_prefixes p pr se fs (acc, off) \<Longrightarrow>
     pack_fields (map_of acc') fs (take (nat off) p) = Inr (take (nat off') p)"
proof (induction fs arbitrary: acc off)
  case Nil
  then show ?case by simp
next
  case (Cons f fs)
  note keys = unpack_fields_keys [OF Cons.prems(1)]
  show ?case
  proof (cases "present pr se f")
    case False
    with Cons.prems have w: "unpack_fields p pr se fs (acc, off) = Inr (acc', off')"
      and d: "digit_prefixes p pr se fs (acc, off)" by simp_all
    from keys False Cons.prems(3) have "map_of acc' f = None" by simp
    moreover from Cons.IH [OF w _ _ d] Cons.prems(2,3)
    have "pack_fields (map_of acc') fs (take (nat off) p) = Inr (take (nat off') p)" by simp
    ultimately show ?thesis by simp
  next
    case True
    with Cons.prems obtain acc1 off1 where u: "unpack_field p f (acc, off) = Inr (acc1, off1)"
      and w: "unpack_fields p pr se fs (acc1, off1) = Inr (acc', off')"
      by (cases "unpack_field p f (acc, off)") (auto simp add: and_then_def)
    from Cons.prems(4) True u
    have d48: "f = 48 \<longrightarrow> decimal_digits (take 3 (drop (nat off) p))"
      and d102: "f = 102 \<longrightarrow> decimal_digits (take 2 (drop (nat off) p))"
      and d: "digit_prefixes p pr se fs (acc1, off1)" by simp_all
    from pack_unpack_field [OF u d48 d102] obtain v where a: "acc1 = AList.update f v acc"
      and pf: "pack_field f v (take (nat off) p) = Inr (take (nat off1) p)" by blast
    from Cons.prems(2) have nf: "f \<notin> set fs" and dist: "distinct fs" by simp_all
    from unpack_fields_keys [OF w] nf have "map_of acc' f = map_of acc1 f" by simp
    then have f: "map_of acc' f = Some v" by (simp add: a update_conv')
    have "\<forall>g \<in> set fs. map_of acc1 g = None"
      using Cons.prems(3) nf by (auto simp add: a update_conv')
    from Cons.IH [OF w dist this d]
    have "pack_fields (map_of acc') fs (take (nat off1) p) = Inr (take (nat off') p)" .
    with f pf show ?thesis by (simp add: and_then_def)
  qed
qed

subsection \<open>The header, packed again\<close>

lemma unpack_window_exact:
  assumes "unpack_window b = Inr p" and "int (length b) = 2 + uint (Uint16 (take 2 b))"
  shows "b = take 2 b @ p" and "length (take 2 b) = 2"
    and "PutUint16 (of_nat (length p)) = take 2 b"
proof -
  from assms(1) have l: "2 \<le> length b"
    and p: "slice_expr b 2 (2 + uint (Uint16 (take 2 b))) = Inr p"
    by (auto simp add: unpack_window_def and_then_def Let_def slice_expr_def
        split: if_splits sum.splits)
  from l show l2: "length (take 2 b) = 2" by simp
  from assms(2) l have "uint (Uint16 (take 2 b)) = int (length b - 2)" by simp
  then have u: "unat (Uint16 (take 2 b)) = length b - 2"
    by (metis nat_uint_eq nat_int)
  from slice_expr_take(2) [OF p] have pd: "p = drop 2 b"
    by (simp add: u)
  then show "b = take 2 b @ p" by simp
  from pd l assms(2) have "int (length p) = uint (Uint16 (take 2 b))" by simp
  then have "of_nat (length p) = Uint16 (take 2 b)"
    by (metis of_int_of_nat_eq word_of_int_uint)
  then show "PutUint16 (of_nat (length p)) = take 2 b"
    by (simp only: PutUint16_Uint16_length [OF l2])
qed

lemma unpack_bitmaps_header:
  assumes "unpack_bitmaps p = Inr (mti, pr, se, off0)"
  shows "length mti = 4" and "0 \<le> off0" and "12 \<le> length p"
    and "pr = Uint64 (take 8 (drop 4 p))"
    and "\<not> bit pr 63 \<Longrightarrow> se = 0"
    and "bit pr 63 \<Longrightarrow> se = Uint64 (take 8 (drop 12 p))"
    and "take (nat off0) p = mti @ PutUint64 pr @ (if bit pr 63 then PutUint64 se else [])"
proof -
  from assms have l: "12 \<le> length p" and mti: "mti = take 4 p"
    and pr: "pr = Uint64 (take 8 (drop 4 p))"
    by (auto simp add: unpack_bitmaps_def and_then_def Let_def slice_expr_def
        split: if_splits sum.splits)
  from l show "12 \<le> length p" .
  from pr show "pr = Uint64 (take 8 (drop 4 p))" .
  from mti l show "length mti = 4" by simp
  have b: "bit pr 63 \<longleftrightarrow> pr AND push_bit 63 1 \<noteq> 0"
    using test_bit_iff [of pr 63] by simp
  from l have l8: "length (take 8 (drop 4 p)) = 8" by simp
  have p8: "PutUint64 pr = take 8 (drop 4 p)"
    unfolding pr by (rule PutUint64_Uint64_length [OF l8])
  have t12: "take 12 p = take 4 p @ take 8 (drop 4 p)"
    using take_add [of 4 8 p] by simp
  show "0 \<le> off0"
    using assms by (auto simp add: unpack_bitmaps_def and_then_def Let_def slice_expr_def
        split: if_splits sum.splits)
  show "se = 0" if "\<not> bit pr 63"
    using assms that unfolding b
    by (auto simp add: unpack_bitmaps_def and_then_def Let_def slice_expr_def
        split: if_splits sum.splits)
  show se: "se = Uint64 (take 8 (drop 12 p))" if "bit pr 63"
    using assms that unfolding b
    by (auto simp add: unpack_bitmaps_def and_then_def Let_def slice_expr_def
        split: if_splits sum.splits)
  show "take (nat off0) p = mti @ PutUint64 pr @ (if bit pr 63 then PutUint64 se else [])"
  proof (cases "bit pr 63")
    case False
    with assms have "off0 = 12" unfolding b
      by (auto simp add: unpack_bitmaps_def and_then_def Let_def slice_expr_def
          split: if_splits sum.splits)
    with False t12 show ?thesis by (simp add: mti p8)
  next
    case True
    with assms have o: "off0 = 20" and l20: "20 \<le> length p" unfolding b
      by (auto simp add: unpack_bitmaps_def and_then_def Let_def slice_expr_def
          split: if_splits sum.splits)
    from l20 have "length (take 8 (drop 12 p)) = 8" by simp
    from PutUint64_Uint64_length [OF this] se [OF True]
    have s8: "PutUint64 se = take 8 (drop 12 p)" by simp
    have "take 20 p = take 12 p @ take 8 (drop 12 p)"
      using take_add [of 12 8 p] by simp
    with True t12 show ?thesis by (simp add: o mti p8 s8)
  qed
qed


lemma secondary_eq:
  assumes pres: "\<forall>f. 2 \<le> f \<and> f \<le> 128 \<longrightarrow> present pr' se' f = present pr se f"
  shows "se' = se"
proof (rule bit_word_eqI)
  fix n
  assume "n < LENGTH(64)"
  then have n: "n < 64" by simp
  then have "2 \<le> 128 - int n \<and> 128 - int n \<le> 128" by simp
  with pres have "present pr' se' (128 - int n) = present pr se (128 - int n)" by blast
  with n show "bit se' n \<longleftrightarrow> bit se n" by (simp add: present_bit)
qed

lemma primary_eq:
  assumes pres: "\<forall>f. 2 \<le> f \<and> f \<le> 128 \<longrightarrow> present pr' se' f = present pr se f"
    and top: "bit pr' 63 \<longleftrightarrow> bit pr 63"
  shows "pr' = pr"
proof (rule bit_word_eqI)
  fix n
  assume "n < LENGTH(64)"
  then have n: "n < 64" by simp
  show "bit pr' n \<longleftrightarrow> bit pr n"
  proof (cases "n = 63")
    case True
    with top show ?thesis by simp
  next
    case False
    with n have "2 \<le> 64 - int n \<and> 64 - int n \<le> 128" by simp
    with pres have "present pr' se' (64 - int n) = present pr se (64 - int n)" by blast
    then show ?thesis by (simp add: present_bit)
  qed
qed

subsection \<open>The inputs that Pack after Unpack reproduces\<close>

text \<open>
  C3, as stated, fails. \<open>Unpack\<close> accepts a frame in which bit 1 of the primary bitmap
  is set and the secondary bitmap that follows is all zero. The message it returns has no
  field above 64, so \<open>Pack\<close> writes no secondary bitmap and clears bit 1: the 22 bytes
  come back as 14 other bytes.
\<close>

theorem Unpack_zero_secondary_not_canonical:
  "Unpack ([0x00, 0x14] @ ascii ''0800'' @ [0x80, 0, 0, 0, 0, 0, 0, 0] @ [0, 0, 0, 0, 0, 0, 0, 0]) =
     Inr \<lparr>MTI = ascii ''0800'', Fields = []\<rparr> \<and>
   Pack \<lparr>MTI = ascii ''0800'', Fields = []\<rparr> =
     Inr ([0x00, 0x0C] @ ascii ''0800'' @ [0, 0, 0, 0, 0, 0, 0, 0]) \<and>
   [0x00, 0x0C] @ ascii ''0800'' @ [0, 0, 0, 0, 0, 0, 0, 0] \<noteq>
   [0x00, 0x14] @ ascii ''0800'' @ [0x80, 0, 0, 0, 0, 0, 0, 0] @ [0, 0, 0, 0, 0, 0, 0, 0]"
  by code_simp

text \<open>
  C3, amended. Let \<open>Unpack\<close> accept \<open>b\<close>, and let \<open>b\<close> be in the form that \<open>Pack\<close>
  writes: \<open>b\<close> ends where its length indicator says, that is, it has exactly 2 bytes
  more than the indicator announces; if bit 1 of the primary bitmap is set (the top bit of
  the byte at offset 6), the secondary bitmap (the 8 bytes at offset 14) is not zero; and
  the length prefixes of the fields 48 and 102 are decimal digits. Then \<open>Pack\<close> of the
  message that \<open>Unpack\<close> returns is \<open>b\<close>, byte for byte.
\<close>

theorem Pack_Unpack_canonical:
  assumes u: "Unpack b = Inr m"
    and len: "int (length b) = 2 + uint (Uint16 (take 2 b))"
    and sec: "bit (b ! 6) 7 \<longrightarrow> Uint64 (take 8 (drop 14 b)) \<noteq> 0"
    and dig: "digit_length_prefixes b"
  shows "Pack m = Inr b"
proof -
  from u obtain p where win: "unpack_window b = Inr p" and um: "unpack_message p = Inr m"
    by (auto simp add: Unpack_def and_then_def split: sum.splits)
  from um obtain mti pr se off0 flds where
    h: "unpack_bitmaps p = Inr (mti, pr, se, off0)"
    and w: "unpack_fields p pr se [2..128] ([], off0) = Inr (flds, int (length p))"
    and m: "m = \<lparr>MTI = mti, Fields = flds\<rparr>"
    by (auto simp add: unpack_message_def and_then_def New_def split: sum.splits if_splits)
  note b = unpack_window_exact [OF win len]
  note hd = unpack_bitmaps_header [OF h]
  from dig win h have d: "digit_prefixes p pr se [2..128] ([], off0)"
    by (simp add: digit_length_prefixes_def)
  have "pack_fields (map_of flds) [2..128] (take (nat off0) p) = Inr (take (nat (int (length p))) p)"
    by (rule pack_unpack_fields [OF w _ _ d]) simp_all
  then have rev: "pack_fields (map_of flds) [2..128] (take (nat off0) p) = Inr p" by simp
  from Unpack_packable [OF u] obtain b' where pk: "Pack m = Inr b'"
    by (cases "Pack m") simp_all
  from pk obtain pr0 se0 pr' sec' t where
    bb: "build_bitmaps (map fst flds) (0, 0) = Inr (pr0, se0)"
    and pr': "pr' = (if se0 \<noteq> 0 then pr0 OR push_bit 63 1 else pr0)"
    and sec': "sec' = (if se0 \<noteq> 0 then PutUint64 se0 else [])"
    and t: "\<forall>body. pack_fields (map_of flds) [2..128] body = Inr (body @ t)"
    and b': "b' = PutUint16 (of_nat (length (mti @ PutUint64 pr' @ sec' @ t))) @
                   mti @ PutUint64 pr' @ sec' @ t"
    by (rule Pack_layout) (simp add: m)
  note bm = Pack_bitmaps [OF bb, folded pr']
  have keys: "k \<in> set (map fst flds) \<longleftrightarrow> 2 \<le> k \<and> k \<le> 128 \<and> present pr se k" for k
    using unpack_fields_keys [OF w] by (auto simp add: map_of_eq_None_iff)
  with bm(4) have pres: "\<forall>f. 2 \<le> f \<and> f \<le> 128 \<longrightarrow> present pr' se0 f = present pr se f"
    by blast
  have s0: "se0 = se" by (rule secondary_eq [OF pres])
  define b2 where "b2 = take 2 b"
  from b have bs: "b = b2 @ p" and l2: "length b2 = 2"
    and mli: "PutUint16 (of_nat (length p)) = b2"
    by (simp_all only: b2_def)
  have "b ! 6 = p ! 4" "drop 14 b = drop 12 p"
    by (simp_all add: bs l2 nth_append)
  moreover from hd(3) have "length (take 8 (drop 4 p)) = 8" by simp
  from Uint64_top_bit [OF this] hd(3,4) have "bit pr 63 \<longleftrightarrow> bit (p ! 4) 7" by simp
  ultimately have "bit pr 63 \<longrightarrow> se \<noteq> 0"
    using sec hd(6) by auto
  with hd(5) have top: "bit pr 63 \<longleftrightarrow> se \<noteq> 0" by blast
  with bm(3) s0 have "bit pr' 63 \<longleftrightarrow> bit pr 63" by simp
  from primary_eq [OF pres this] have p0: "pr' = pr" .
  from sec' s0 top have "sec' = (if bit pr 63 then PutUint64 se else [])" by simp
  with hd(7) p0 have "take (nat off0) p = mti @ PutUint64 pr' @ sec'" by simp
  moreover from rev t have "p = take (nat off0) p @ t" by simp
  ultimately have "p = mti @ PutUint64 pr' @ sec' @ t" by simp
  with b' have "b' = PutUint16 (of_nat (length p)) @ p" by simp
  with mli bs pk show ?thesis by simp
qed

theorem Pack_Unpack_canonical_witness:
  "Unpack ([0x00, 0x28] @ ascii ''0800'' @ [0x80, 0x20, 0, 0, 0, 1, 0, 0] @
          [0, 0, 0, 0, 0x04, 0, 0, 0] @ ascii ''123456'' @ ascii ''005HELLO'' @
          ascii ''04ACC1'') =
     Inr \<lparr>MTI = ascii ''0800'', Fields = [(11, ascii ''123456''), (48, ascii ''HELLO''),
            (102, ascii ''ACC1'')]\<rparr> \<and>
   digit_length_prefixes ([0x00, 0x28] @ ascii ''0800'' @ [0x80, 0x20, 0, 0, 0, 1, 0, 0] @
          [0, 0, 0, 0, 0x04, 0, 0, 0] @ ascii ''123456'' @ ascii ''005HELLO'' @
          ascii ''04ACC1'') \<and>
   Pack \<lparr>MTI = ascii ''0800'', Fields = [(11, ascii ''123456''), (48, ascii ''HELLO''),
            (102, ascii ''ACC1'')]\<rparr> =
     Inr ([0x00, 0x28] @ ascii ''0800'' @ [0x80, 0x20, 0, 0, 0, 1, 0, 0] @
          [0, 0, 0, 0, 0x04, 0, 0, 0] @ ascii ''123456'' @ ascii ''005HELLO'' @
          ascii ''04ACC1'')"
proof -
  let ?m = "\<lparr>MTI = ascii ''0800'', Fields = [(11, ascii ''123456''), (48, ascii ''HELLO''),
            (102, ascii ''ACC1'')]\<rparr>"
  let ?b = "[0x00, 0x28] @ ascii ''0800'' @ [0x80, 0x20, 0, 0, 0, 1, 0, 0] @
          [0, 0, 0, 0, 0x04, 0, 0, 0] @ ascii ''123456'' @ ascii ''005HELLO'' @
          ascii ''04ACC1''"
  have u: "Unpack ?b = Inr ?m"
    by code_simp
  have len: "int (length ?b) = 2 + uint (Uint16 (take 2 ?b))"
    by (simp add: ascii_def Uint16_def)
  have sec: "bit (?b ! 6) 7 \<longrightarrow> Uint64 (take 8 (drop 14 ?b)) \<noteq> 0"
    by (simp add: ascii_def Uint64_def)
  have dig: "digit_length_prefixes ?b"
    by code_simp
  from u dig Pack_Unpack_canonical [OF u len sec dig] show ?thesis by simp
qed

subsection \<open>Every output of Pack has that form\<close>

text \<open>
  The three conditions hold of every frame that \<open>Pack\<close> writes: the length indicator is
  the length of what follows it, bit 1 of the primary bitmap is set only over a secondary
  bitmap with a bit set, and the length prefixes are written with \<^verbatim>\<open>%02d\<close> and
  \<^verbatim>\<open>%03d\<close>. So the result above covers every output of \<open>Pack\<close>.
\<close>

lemma decimal_digits_digit: "d < 10 \<Longrightarrow> 0x30 \<le> (48 + of_nat d :: byte) \<and> (48 + of_nat d :: byte) \<le> 0x39"
proof -
  assume "d < 10"
  then have "d = 0 \<or> d = 1 \<or> d = 2 \<or> d = 3 \<or> d = 4 \<or> d = 5 \<or> d = 6 \<or> d = 7 \<or> d = 8 \<or> d = 9"
    by arith
  then show ?thesis by (elim disjE) simp_all
qed

lemma decimal_digits_Sprintf_02d: "n \<le> 99 \<Longrightarrow> decimal_digits (Sprintf_0d 2 n)"
proof -
  assume n: "n \<le> 99"
  then have "n div 10 < 10" "n mod 10 < 10" by simp_all
  from this [THEN decimal_digits_digit] n show ?thesis
    by (simp add: Sprintf_02d decimal_digits_def)
qed

lemma decimal_digits_Sprintf_03d: "n \<le> 999 \<Longrightarrow> decimal_digits (Sprintf_0d 3 n)"
proof -
  assume n: "n \<le> 999"
  then have "n div 100 < 10" "n div 10 mod 10 < 10" "n mod 10 < 10" by simp_all
  from this [THEN decimal_digits_digit] n show ?thesis
    by (simp add: Sprintf_03d decimal_digits_def)
qed

lemma pack_field_prefix:
  assumes "pack_field f v body = Inr r"
  shows "\<exists>enc. r = body @ enc \<and>
           (f = 48 \<longrightarrow> decimal_digits (take 3 enc) \<and> 3 \<le> length enc) \<and>
           (f = 102 \<longrightarrow> decimal_digits (take 2 enc) \<and> 2 \<le> length enc)"
proof -
  consider "f = 48" | "f = 102" | "f \<noteq> 48" "f \<noteq> 102" by blast
  then show ?thesis
  proof cases
    case 1
    with assms have "length v \<le> 999" "r = body @ Sprintf_0d 3 (length v) @ v"
      by (auto simp add: pack_field_def packLLLVAR_def split: if_splits)
    with 1 show ?thesis
      by (intro exI [of _ "Sprintf_0d 3 (length v) @ v"])
        (simp add: decimal_digits_Sprintf_03d length_Sprintf_03d)
  next
    case 2
    with assms have "length v \<le> 99" "r = body @ Sprintf_0d 2 (length v) @ v"
      by (auto simp add: pack_field_def packLLVAR_def split: if_splits)
    with 2 show ?thesis
      by (intro exI [of _ "Sprintf_0d 2 (length v) @ v"])
        (simp add: decimal_digits_Sprintf_02d length_Sprintf_02d)
  next
    case 3
    from unpack_field_packed [OF assms] obtain enc where "r = body @ enc" by blast
    with 3 show ?thesis by simp
  qed
qed

lemma digit_prefixes_packed:
  assumes "pack_fields flds fs body = Inr msg"
    and "\<forall>f \<in> set fs. present pr se f \<longleftrightarrow> flds f \<noteq> None"
  shows "digit_prefixes (msg @ suf) pr se fs (acc, int (length body))"
  using assms
proof (induction fs arbitrary: body acc)
  case Nil
  then show ?case by simp
next
  case (Cons f fs)
  show ?case
  proof (cases "flds f")
    case None
    with Cons.prems have "pack_fields flds fs body = Inr msg" "\<not> present pr se f"
      "\<forall>f \<in> set fs. present pr se f \<longleftrightarrow> flds f \<noteq> None" by simp_all
    with Cons.IH [of body acc] show ?thesis by simp
  next
    case (Some v)
    with Cons.prems obtain r where pf: "pack_field f v body = Inr r"
      and rest: "pack_fields flds fs r = Inr msg"
      by (cases "pack_field f v body") (auto simp add: and_then_def)
    from Cons.prems Some have pres: "present pr se f"
      and pres': "\<forall>f \<in> set fs. present pr se f \<longleftrightarrow> flds f \<noteq> None" by simp_all
    from unpack_field_packed [OF pf] obtain enc where r: "r = body @ enc"
      and uf: "\<And>suf flds. unpack_field (body @ enc @ suf) f (flds, int (length body)) =
              Inr (AList.update f v flds, int (length body) + int (length enc))"
      by blast
    from pack_field_prefix [OF pf] r
    have d48: "f = 48 \<longrightarrow> decimal_digits (take 3 enc) \<and> 3 \<le> length enc"
      and d102: "f = 102 \<longrightarrow> decimal_digits (take 2 enc) \<and> 2 \<le> length enc"
      by auto
    from unpack_pack_fields [OF rest pres'] obtain t where msg: "msg = r @ t" by blast
    have m: "msg @ suf = body @ enc @ t @ suf" by (simp add: msg r)
    have u: "unpack_field (msg @ suf) f (acc, int (length body)) =
        Inr (AList.update f v acc, int (length r))"
      unfolding m using uf [of "t @ suf" acc] by (simp add: r)
    from Cons.IH [OF rest pres', of "AList.update f v acc"]
    have "digit_prefixes (msg @ suf) pr se fs (AList.update f v acc, int (length r))" .
    with pres u d48 d102 show ?thesis
      by (simp add: m)
  qed
qed

lemma Pack_output_canonical:
  assumes "Pack m = Inr b"
  shows "int (length b) = 2 + uint (Uint16 (take 2 b))"
    and "bit (b ! 6) 7 \<longrightarrow> Uint64 (take 8 (drop 14 b)) \<noteq> 0"
    and "digit_length_prefixes b"
proof -
  from assms obtain pr0 se pr sec t where
    mti: "length (MTI m) = 4"
    and bm: "build_bitmaps (map fst (Fields m)) (0, 0) = Inr (pr0, se)"
    and pr: "pr = (if se \<noteq> 0 then pr0 OR push_bit 63 1 else pr0)"
    and sec: "sec = (if se \<noteq> 0 then PutUint64 se else [])"
    and pf': "\<forall>body. pack_fields (map_of (Fields m)) [2..128] body = Inr (body @ t)"
    and b: "b = PutUint16 (of_nat (length (MTI m @ PutUint64 pr @ sec @ t))) @
                MTI m @ PutUint64 pr @ sec @ t"
    by (rule Pack_layout)
  let ?hdr = "MTI m @ PutUint64 pr @ sec"
  let ?msg = "?hdr @ t"
  from pf' have pf: "pack_fields (map_of (Fields m)) [2..128] ?hdr = Inr ?msg" by blast
  note bits = Pack_bitmaps [OF bm, folded pr]
  have dom: "map_of (Fields m) f \<noteq> None \<longleftrightarrow> f \<in> set (map fst (Fields m))" for f
    by (simp add: map_of_eq_None_iff)
  have pres: "\<forall>f \<in> set [2..128]. present pr se f \<longleftrightarrow> map_of (Fields m) f \<noteq> None"
    using bits(4) by (simp only: dom) simp
  have hlen: "length ?hdr = 12 + length sec" using mti by simp
  have "length ?msg \<le> length ?hdr + 1122"
    using pack_fields_all_length [OF pf] by simp
  moreover have "length sec \<le> 8" by (simp add: sec)
  ultimately have len: "length ?msg < 65536" using hlen by simp
  have "take 2 b = PutUint16 (of_nat (length ?msg))" by (simp add: b)
  then have "uint (Uint16 (take 2 b)) = int (length ?msg)"
    using len by (simp only: Uint16_PutUint16 uint_length16)
  moreover have "length b = 2 + length ?msg" by (simp add: b)
  ultimately show "int (length b) = 2 + uint (Uint16 (take 2 b))" by simp
  have b6: "b ! 6 = PutUint64 pr ! 0"
    using mti by (simp add: b nth_append)
  show "bit (b ! 6) 7 \<longrightarrow> Uint64 (take 8 (drop 14 b)) \<noteq> 0"
  proof
    assume "bit (b ! 6) 7"
    with b6 bits(3) have se: "se \<noteq> 0" by (simp add: PutUint64_top_bit)
    with sec mti have "take 8 (drop 14 b) = PutUint64 se" by (simp add: b)
    with se show "Uint64 (take 8 (drop 14 b)) \<noteq> 0" by (simp add: Uint64_PutUint64)
  qed
  have win: "unpack_window b = Inr ?msg"
    using unpack_window_framed [OF len, of "[]"] b by simp
  have hd: "unpack_bitmaps ?msg = Inr (MTI m, pr, se, 12 + int (length sec))"
    using unpack_bitmaps_packed [OF mti sec bits(3), of ?msg t] by simp
  from digit_prefixes_packed [OF pf pres, of "[]" "[]"] hlen
  have "digit_prefixes ?msg pr se [2..128] ([], 12 + int (length sec))" by simp
  with win hd show "digit_length_prefixes b"
    by (simp add: digit_length_prefixes_def)
qed

subsection \<open>Accepted inputs outside that form\<close>

text \<open>
  The condition on the length prefixes cannot be dropped on this code: \<open>Atoi\<close> reads a
  sign, so \<open>Unpack\<close> accepts a frame whose LLLVAR length prefix is \<^verbatim>\<open>"+00"\<close>, and
  \<open>Pack\<close> of the message it returns writes the prefix \<^verbatim>\<open>"000"\<close>. This is the leniency
  that lets a negative length through in the section on a length prefix with a sign.
\<close>

lemma Unpack_signed_prefix_not_canonical:
  "Unpack ([0x00, 0x0F] @ ascii ''0800'' @ [0, 0, 0, 0, 0, 1, 0, 0] @ ascii ''+00'') =
     Inr \<lparr>MTI = ascii ''0800'', Fields = [(48, [])]\<rparr> \<and>
   Pack \<lparr>MTI = ascii ''0800'', Fields = [(48, [])]\<rparr> =
     Inr ([0x00, 0x0F] @ ascii ''0800'' @ [0, 0, 0, 0, 0, 1, 0, 0] @ ascii ''000'') \<and>
   [0x00, 0x0F] @ ascii ''0800'' @ [0, 0, 0, 0, 0, 1, 0, 0] @ ascii ''000'' \<noteq>
   [0x00, 0x0F] @ ascii ''0800'' @ [0, 0, 0, 0, 0, 1, 0, 0] @ ascii ''+00''"
  by code_simp

text \<open>
  The condition on the length cannot be dropped either: \<open>Unpack\<close> does not look at the
  bytes after the window that the length indicator declares, and \<open>Pack\<close> does not write
  them.
\<close>

lemma Unpack_bytes_past_window_not_canonical:
  "Unpack ([0x00, 0x12] @ ascii ''0200'' @ [0, 0x20, 0, 0, 0, 0, 0, 0] @ ascii ''123456'' @
           ascii ''X'') =
     Inr \<lparr>MTI = ascii ''0200'', Fields = [(11, ascii ''123456'')]\<rparr> \<and>
   Pack \<lparr>MTI = ascii ''0200'', Fields = [(11, ascii ''123456'')]\<rparr> =
     Inr ([0x00, 0x12] @ ascii ''0200'' @ [0, 0x20, 0, 0, 0, 0, 0, 0] @ ascii ''123456'') \<and>
   [0x00, 0x12] @ ascii ''0200'' @ [0, 0x20, 0, 0, 0, 0, 0, 0] @ ascii ''123456'' \<noteq>
   [0x00, 0x12] @ ascii ''0200'' @ [0, 0x20, 0, 0, 0, 0, 0, 0] @ ascii ''123456'' @ ascii ''X''"
  by code_simp

section \<open>Bytes after the end of the message\<close>

text \<open>
  The loop over the fields never moves the offset past the end of the window. So when the
  loop completes, either it has consumed the window and \<open>Unpack\<close> returns the message, or
  bytes of the window are left and \<open>Unpack\<close> fails with \<^verbatim>\<open>extra bytes at end\<close> and their
  number.
\<close>

lemma slice_expr_bounds:
  "slice_expr p lo hi = Inr v \<Longrightarrow> lo \<le> hi \<and> hi \<le> int (length p)"
  by (simp add: slice_expr_def split: if_splits)

lemma unpack_field_offset:
  assumes "unpack_field p f (flds, off) = Inr (flds', off')"
  shows "off \<le> off' \<and> off' \<le> int (length p)"
proof -
  consider "f = 7" | "f = 11" | "f = 48" | "f = 70" | "f = 102"
    using assms by (auto simp add: unpack_field_def split: if_splits)
  then show ?thesis
  proof cases
    case 1
    with assms show ?thesis
      by (auto simp add: unpack_field_def and_then_def split: if_splits sum.splits)
  next
    case 2
    with assms show ?thesis
      by (auto simp add: unpack_field_def and_then_def split: if_splits sum.splits)
  next
    case 3
    with assms obtain v where "unpackLLLVAR p off = Inr (v, off')"
      by (auto simp add: unpack_field_def split: if_splits sum.splits abort.splits)
    then show ?thesis
      by (auto simp add: unpackLLLVAR_def and_then_def Let_def
          split: if_splits sum.splits option.splits dest!: slice_expr_bounds)
  next
    case 4
    with assms show ?thesis
      by (auto simp add: unpack_field_def and_then_def split: if_splits sum.splits)
  next
    case 5
    with assms obtain v where "unpackLLVAR p off = Inr (v, off')"
      by (auto simp add: unpack_field_def split: if_splits sum.splits abort.splits)
    then show ?thesis
      by (auto simp add: unpackLLVAR_def and_then_def Let_def
          split: if_splits sum.splits option.splits dest!: slice_expr_bounds)
  qed
qed

lemma unpack_fields_offset:
  "unpack_fields p pr se fs (flds, off) = Inr (flds', off') \<Longrightarrow> off \<le> int (length p) \<Longrightarrow>
     off \<le> off' \<and> off' \<le> int (length p)"
proof (induction fs arbitrary: flds off)
  case Nil
  then show ?case by simp
next
  case (Cons f fs)
  show ?case
  proof (cases "present pr se f")
    case False
    with Cons show ?thesis by simp
  next
    case True
    with Cons.prems(1) obtain flds1 off1 where s: "unpack_field p f (flds, off) = Inr (flds1, off1)"
      and r: "unpack_fields p pr se fs (flds1, off1) = Inr (flds', off')"
      by (auto simp add: and_then_def split: sum.splits)
    from unpack_field_offset [OF s] have "off \<le> off1" "off1 \<le> int (length p)" by simp_all
    with Cons.IH [OF r] show ?thesis by simp
  qed
qed

lemma unpack_bitmaps_offset:
  "unpack_bitmaps p = Inr (mti, pr, se, off) \<Longrightarrow> off \<le> int (length p)"
  by (auto simp add: unpack_bitmaps_def and_then_def Let_def split: if_splits sum.splits)

lemma Unpack_remaining_bytes:
  assumes "unpack_window b = Inr p"
    and "unpack_bitmaps p = Inr (mti, pr, se, off0)"
    and "unpack_fields p pr se [2..128] ([], off0) = Inr (flds, off)"
  shows "off \<le> int (length p)"
    and "off < int (length p) \<Longrightarrow> Unpack b = Inl (Error (ExtraBytes (int (length p) - off)))"
    and "off = int (length p) \<Longrightarrow> Unpack b = Inr \<lparr>MTI = mti, Fields = flds\<rparr>"
proof -
  from unpack_fields_offset [OF assms(3) unpack_bitmaps_offset [OF assms(2)]]
  show "off \<le> int (length p)" by simp
  show "off < int (length p) \<Longrightarrow> Unpack b = Inl (Error (ExtraBytes (int (length p) - off)))"
    using assms by (simp add: Unpack_def unpack_message_def and_then_def New_def)
  show "off = int (length p) \<Longrightarrow> Unpack b = Inr \<lparr>MTI = mti, Fields = flds\<rparr>"
    using assms by (simp add: Unpack_def unpack_message_def and_then_def New_def)
qed

text \<open>Bytes of the buffer after the window are never read.\<close>

lemma unpack_window_append:
  assumes "unpack_window b = Inr p"
  shows "unpack_window (b @ xs) = Inr p"
proof -
  from assms obtain b2 where l: "\<not> length b < 2"
    and s1: "slice_expr b 0 2 = Inr b2"
    and g: "\<not> int (length b) - 2 < uint (Uint16 b2)"
    and s2: "slice_expr b 2 (2 + uint (Uint16 b2)) = Inr p"
    by (auto simp add: unpack_window_def and_then_def Let_def split: if_splits sum.splits)
  from l g show ?thesis
    by (simp add: unpack_window_def and_then_def Let_def
        slice_expr_append [OF s1] slice_expr_append [OF s2])
qed

lemma Unpack_ignores_bytes_past_window:
  "unpack_window b = Inr p \<Longrightarrow> Unpack (b @ xs) = Unpack b"
  by (simp add: Unpack_def unpack_window_append)

text \<open>
  C4, as stated, fails. The frame that \<open>Pack\<close> builds for type indicator \<^verbatim>\<open>"0200"\<close> and
  field 11 has the length indicator 18 and 20 bytes; with one more byte after it, and the
  length indicator unchanged, the buffer extends past offset 2 + MLI and \<open>Unpack\<close> still
  returns the message.
\<close>

theorem Unpack_accepts_trailing_byte:
  "Unpack ([0x00, 0x12] @ ascii ''0200'' @ [0, 0x20, 0, 0, 0, 0, 0, 0] @ ascii ''123456'' @ ascii ''X'') =
     Inr \<lparr>MTI = ascii ''0200'', Fields = [(11, ascii ''123456'')]\<rparr> \<and>
   2 + uint (Uint16 [0x00, 0x12]) = 20 \<and>
   length ([0x00, 0x12] @ ascii ''0200'' @ [0, 0x20, 0, 0, 0, 0, 0, 0] @ ascii ''123456'' @ ascii ''X'') = 21"
  by code_simp

text \<open>
  C4, amended. Take a frame that \<open>Unpack\<close> accepts, written as its length indicator
  followed by the window \<open>p\<close>, and any non-empty bytes \<open>xs\<close>. With \<open>xs\<close> appended and
  the length indicator raised to cover them, the bytes left in the window after the last
  field are \<open>xs\<close> and \<open>Unpack\<close> fails with \<^verbatim>\<open>extra bytes at end\<close> and their number.
  With \<open>xs\<close> appended and the length indicator unchanged, the bytes lie past offset
  2 + MLI, are not read, and \<open>Unpack\<close> returns the same message.
\<close>

theorem Unpack_trailing_bytes:
  assumes "Unpack (PutUint16 (of_nat (length p)) @ p) = Inr m"
    and "xs \<noteq> []" and "length p + length xs < 65536"
  shows "Unpack (PutUint16 (of_nat (length p + length xs)) @ p @ xs) =
           Inl (Error (ExtraBytes (int (length xs)))) \<and>
         Unpack (PutUint16 (of_nat (length p)) @ p @ xs) = Inr m"
proof -
  from assms(3) have lp: "length p < 65536" and lpx: "length (p @ xs) < 65536" by simp_all
  from assms(1) Unpack_framed [OF lp, of "[]"] have m: "unpack_message p = Inr m" by simp
  from Unpack_framed [OF lpx, of "[]"] unpack_message_append [OF m assms(2)]
  have "Unpack (PutUint16 (of_nat (length p + length xs)) @ p @ xs) =
           Inl (Error (ExtraBytes (int (length xs))))" by simp
  moreover from Unpack_framed [OF lp, of xs] m
  have "Unpack (PutUint16 (of_nat (length p)) @ p @ xs) = Inr m" by simp
  ultimately show ?thesis by simp
qed

theorem Unpack_trailing_bytes_witness:
  "Unpack (PutUint16 (of_nat (length (ascii ''0200'' @ [0, 0x20, 0, 0, 0, 0, 0, 0] @ ascii ''123456''))) @
      (ascii ''0200'' @ [0, 0x20, 0, 0, 0, 0, 0, 0] @ ascii ''123456'')) =
     Inr \<lparr>MTI = ascii ''0200'', Fields = [(11, ascii ''123456'')]\<rparr> \<and>
   Unpack (PutUint16 (of_nat (length (ascii ''0200'' @ [0, 0x20, 0, 0, 0, 0, 0, 0] @ ascii ''123456'') + length (ascii ''X''))) @
      (ascii ''0200'' @ [0, 0x20, 0, 0, 0, 0, 0, 0] @ ascii ''123456'') @ ascii ''X'') =
     Inl (Error (ExtraBytes (int (length (ascii ''X''))))) \<and>
   Unpack (PutUint16 (of_nat (length (ascii ''0200'' @ [0, 0x20, 0, 0, 0, 0, 0, 0] @ ascii ''123456''))) @
      (ascii ''0200'' @ [0, 0x20, 0, 0, 0, 0, 0, 0] @ ascii ''123456'') @ ascii ''X'') =
     Inr \<lparr>MTI = ascii ''0200'', Fields = [(11, ascii ''123456'')]\<rparr>"
proof -
  let ?p = "ascii ''0200'' @ [0, 0x20, 0, 0, 0, 0, 0, 0] @ ascii ''123456''"
  let ?m = "\<lparr>MTI = ascii ''0200'', Fields = [(11, ascii ''123456'')]\<rparr>"
  have u: "Unpack (PutUint16 (of_nat (length ?p)) @ ?p) = Inr ?m"
    by code_simp
  have x: "ascii ''X'' \<noteq> []" and l: "length ?p + length (ascii ''X'') < 65536"
    by (simp_all add: ascii_def)
  from u Unpack_trailing_bytes [OF u x l] show ?thesis by (rule conjI)
qed

end
